theory Spec2Isabelle
  imports Complex_Main
begin

section \<open>Errors\<close>

text \<open>
  The Python exceptions that the modelled functions can raise.  A function that can raise
  returns \<open>error + 'a\<close>, with \<open>Inl\<close> for the exception.  \<open>NotModelled\<close> is not an
  exception: it marks an input on which the model does not follow the library.
\<close>

datatype error = OverflowError | ValueError | KeyError | NotModelled

text \<open>Sequencing of steps that can raise: the first exception ends the computation.\<close>

definition and_then :: "error + 'a \<Rightarrow> ('a \<Rightarrow> error + 'b) \<Rightarrow> error + 'b" where
  "and_then x f = (case x of Inl e \<Rightarrow> Inl e | Inr v \<Rightarrow> f v)"

lemma and_then_Inr [simp]: "and_then (Inr v) f = f v"
  by (simp add: and_then_def)

lemma and_then_Inl [simp]: "and_then (Inl e) f = Inl e"
  by (simp add: and_then_def)

section \<open>Percentage deltas of the panels\<close>

text \<open>
  \<^verbatim>\<open>delta = m1_val - m2_val\<close>, \<^verbatim>\<open>pct = (delta / m2_val * 100) if m2_val > 0 else 0\<close>.
  In \<open>api_discover\<close> both values are integers (GA4 counts) and \<open>/\<close> is true division;
  in \<open>api_buy\<close> and \<open>api_renew\<close> they are sums of amounts.  Python floats are idealised
  as reals.
\<close>

definition api_discover_pct :: "int \<Rightarrow> int \<Rightarrow> real" where
  "api_discover_pct m1_val m2_val =
     (let delta = m1_val - m2_val
      in if m2_val > 0 then real_of_int delta / real_of_int m2_val * 100 else 0)"

definition api_buy_pct_val :: "real \<Rightarrow> real \<Rightarrow> real" where
  "api_buy_pct_val m1_val m2_val =
     (let delta_val = m1_val - m2_val
      in if m2_val > 0 then delta_val / m2_val * 100 else 0)"

definition api_renew_pct_val :: "real \<Rightarrow> real \<Rightarrow> real" where
  "api_renew_pct_val m1_val m2_val =
     (let delta_val = m1_val - m2_val
      in if m2_val > 0 then delta_val / m2_val * 100 else 0)"

section \<open>Cumulative trend builder\<close>

text \<open>
  A trend row is a Python dict, modelled as an association list from key to cell (keys of a
  dict are distinct; \<open>map_of\<close> is the lookup).
\<close>

datatype cell = Str string | Num int

type_synonym row = "(string \<times> cell) list"

text \<open>
  \<open>pd.DataFrame(daily_data)\<close>: one line per dict, the columns are the keys of all
  dicts, a key missing from a dict is NaN in its line.  \<open>df.empty\<close> holds when there is
  no line or no column.
\<close>

definition in_columns :: "string \<Rightarrow> row list \<Rightarrow> bool" where
  "in_columns key daily_data = list_ex (\<lambda>r. map_of r key \<noteq> None) daily_data"

definition df_empty :: "row list \<Rightarrow> bool" where
  "df_empty daily_data = (daily_data = [] \<or> list_all (\<lambda>r. r = []) daily_data)"

text \<open>
  The column \<open>df[key]\<close>: \<open>None\<close> is NaN.  Only numeric value columns are modelled: what
  pandas does with a string cell in the summed column is left out (\<open>NotModelled\<close>).
\<close>

fun numeric_column :: "string \<Rightarrow> row list \<Rightarrow> error + int option list" where
  "numeric_column key [] = Inr []"
| "numeric_column key (r # rs) =
     (case map_of r key of
        Some (Str s) \<Rightarrow> Inl NotModelled
      | Some (Num v) \<Rightarrow>
          (case numeric_column key rs of Inl e \<Rightarrow> Inl e | Inr vs \<Rightarrow> Inr (Some v # vs))
      | None \<Rightarrow>
          (case numeric_column key rs of Inl e \<Rightarrow> Inl e | Inr vs \<Rightarrow> Inr (None # vs)))"

text \<open>
  The type of the column.  Python integers that all lie in the range of a signed 64-bit
  integer make an \<open>int64\<close> column, whose arithmetic wraps around modulo \<open>2^64\<close>; with a
  NaN among them the column is \<open>float64\<close> (floats are idealised as reals, so its sums are
  exact).  An integer outside the 64-bit range is left out (\<open>NotModelled\<close>).
\<close>

definition in_int64 :: "int \<Rightarrow> bool" where
  "in_int64 v = (- 9223372036854775808 \<le> v \<and> v \<le> 9223372036854775807)"

definition wrap_int64 :: "int \<Rightarrow> int" where
  "wrap_int64 v = (v + 9223372036854775808) mod 18446744073709551616 - 9223372036854775808"

definition is_int64_column :: "int option list \<Rightarrow> bool" where
  "is_int64_column vs = list_all (\<lambda>v. v \<noteq> None) vs"

text \<open>
  \<open>Series.cumsum()\<close>: the running sum; a NaN stays NaN and is skipped by the sum.  In an
  \<open>int64\<close> column every partial sum wraps around.
\<close>

fun cumsum :: "bool \<Rightarrow> int \<Rightarrow> int option list \<Rightarrow> int option list" where
  "cumsum int64 acc [] = []"
| "cumsum int64 acc (None # vs) = None # cumsum int64 acc vs"
| "cumsum int64 acc (Some v # vs) =
     (let s = (if int64 then wrap_int64 (acc + v) else acc + v)
      in Some s # cumsum int64 s vs)"

definition column_cumsum :: "int option list \<Rightarrow> error + int option list" where
  "column_cumsum vs =
     (if list_ex (\<lambda>v. case v of None \<Rightarrow> False | Some x \<Rightarrow> \<not> in_int64 x) vs then Inl NotModelled
      else Inr (cumsum (is_int64_column vs) 0 vs))"

record cumulative_point =
  Date :: "cell option"
  Cumulative :: "int option"

text \<open>
  \<^verbatim>\<open>
  def calculate_cumulative(daily_data, key="New Users"):
      if not daily_data:
          return []
      df_c = pd.DataFrame(daily_data)
      if df_c.empty or key not in df_c.columns:
          return []
      df_c['Cumulative'] = df_c[key].cumsum()
      return df_c[['Date', 'Cumulative']].to_dict('records')
  \<close>
  Selecting the column \<open>Date\<close> raises \<open>KeyError\<close> when no dict carries it.
\<close>

definition calculate_cumulative :: "row list \<Rightarrow> string \<Rightarrow> error + cumulative_point list" where
  "calculate_cumulative daily_data key =
     (if daily_data = [] then Inr []
      else if df_empty daily_data \<or> \<not> in_columns key daily_data then Inr []
      else case numeric_column key daily_data of
             Inl e \<Rightarrow> Inl e
           | Inr vs \<Rightarrow>
               (case column_cumsum vs of
                  Inl e \<Rightarrow> Inl e
                | Inr cs \<Rightarrow>
                    if \<not> in_columns ''Date'' daily_data then Inl KeyError
                    else Inr (map2 (\<lambda>r c. \<lparr>Date = map_of r ''Date'', Cumulative = c\<rparr>)
                               daily_data cs)))"

subsection \<open>Properties of the percentage deltas\<close>

text \<open>
  C5 (as amended).  For the three panels that report a percentage (discover, buy, renew), the
  reported value is \<open>(current - prior) / prior * 100\<close> whenever \<open>prior\<close> is positive, and
  exactly 0 whenever \<open>prior\<close> is zero or negative: the guard of the source is
  \<open>m2_val > 0\<close>, not \<open>m2_val != 0\<close>.
\<close>

theorem delta_pct_policy:
  "(0 < p \<longrightarrow> api_buy_pct_val c p = (c - p) / p * 100) \<and>
   (p \<le> 0 \<longrightarrow> api_buy_pct_val c p = 0) \<and>
   (0 < p \<longrightarrow> api_renew_pct_val c p = (c - p) / p * 100) \<and>
   (p \<le> 0 \<longrightarrow> api_renew_pct_val c p = 0) \<and>
   (0 < q \<longrightarrow> api_discover_pct d q = real_of_int (d - q) / real_of_int q * 100) \<and>
   (q \<le> 0 \<longrightarrow> api_discover_pct d q = 0)"
  by (simp add: api_buy_pct_val_def api_renew_pct_val_def api_discover_pct_def)

theorem delta_pct_policy_witness:
  "api_buy_pct_val 150 100 = 50 \<and> api_renew_pct_val 150 100 = 50 \<and>
   api_discover_pct 150 100 = 50 \<and>
   api_buy_pct_val 7 0 = 0 \<and> api_renew_pct_val 7 0 = 0 \<and> api_discover_pct 7 0 = 0"
  using delta_pct_policy [of 100 150 100 150] delta_pct_policy [of 0 7 0 7]
  by simp

text \<open>
  C5 as the specification states it fails for a negative prior value (a prior-period revenue total of
  \<open>-50\<close>, which a sum of deal amounts can be): the prior value is nonzero, the formula
  gives \<open>-100\<close>, and the code reports 0.
\<close>

theorem delta_pct_negative_prior:
  "(-50 :: real) \<noteq> 0 \<and> (0 - (-50)) / (-50) * 100 = (-100 :: real) \<and>
   api_buy_pct_val 0 (-50) = 0 \<and>
   api_buy_pct_val 0 (-50) \<noteq> (0 - (-50)) / (-50) * 100"
  by (simp add: api_buy_pct_val_def)

subsection \<open>Properties of the cumulative trend builder\<close>

definition row_value :: "string \<Rightarrow> row \<Rightarrow> int" where
  "row_value key r = (case map_of r key of Some (Num v) \<Rightarrow> v | _ \<Rightarrow> 0)"

lemma numeric_column_numeric:
  "\<forall>r\<in>set rs. \<exists>v. map_of r key = Some (Num v) \<Longrightarrow>
   numeric_column key rs = Inr (map (\<lambda>r. Some (row_value key r)) rs)"
  by (induction rs) (auto simp: row_value_def)

lemma length_cumsum: "length (cumsum int64 acc vs) = length vs"
  by (induction int64 acc vs rule: cumsum.induct) (auto simp: Let_def)

lemma wrap_int64_id: "in_int64 v \<Longrightarrow> wrap_int64 v = v"
proof -
  assume "in_int64 v"
  then have "0 \<le> v + 9223372036854775808" "v + 9223372036854775808 < 18446744073709551616"
    by (simp_all add: in_int64_def)
  then have "(v + 9223372036854775808) mod 18446744073709551616 = v + 9223372036854775808"
    by (rule mod_pos_pos_trivial)
  then show ?thesis by (simp add: wrap_int64_def)
qed

lemma cumsum_nth:
  assumes "i < length xs"
    and "\<forall>j<length xs. in_int64 (acc + sum_list (take (Suc j) xs))"
  shows "cumsum int64 acc (map Some xs) ! i = Some (acc + sum_list (take (Suc i) xs))"
  using assms
proof (induction xs arbitrary: acc i)
  case Nil
  then show ?case by simp
next
  case (Cons x xs)
  from Cons.prems(2) have "in_int64 (acc + sum_list (take (Suc 0) (x # xs)))" by blast
  then have w: "wrap_int64 (acc + x) = acc + x" by (simp add: wrap_int64_id)
  show ?case
  proof (cases i)
    case 0
    with w show ?thesis by (cases int64) (simp_all add: Let_def)
  next
    case (Suc k)
    with Cons.prems have k: "k < length xs" by simp
    have r: "\<forall>j<length xs. in_int64 (acc + x + sum_list (take (Suc j) xs))"
    proof (intro allI impI)
      fix j assume "j < length xs"
      then have "Suc j < length (x # xs)" by simp
      with Cons.prems(2) have "in_int64 (acc + sum_list (take (Suc (Suc j)) (x # xs)))" by blast
      then show "in_int64 (acc + x + sum_list (take (Suc j) xs))" by (simp add: add.assoc)
    qed
    from Cons.IH [OF k r] Suc w show ?thesis
      by (cases int64) (simp_all add: Let_def add.assoc)
  qed
qed

lemma sum_list_take_mono:
  fixes xs :: "int list"
  assumes "\<forall>x\<in>set xs. 0 \<le> x" "i \<le> j"
  shows "sum_list (take i xs) \<le> sum_list (take j xs)"
proof -
  have "take j xs = take i xs @ take (j - i) (drop i xs)"
    using assms(2) by (metis le_add_diff_inverse take_add)
  moreover have "0 \<le> sum_list (take (j - i) (drop i xs))"
    using assms(1) by (intro sum_list_nonneg) (auto dest: in_set_takeD in_set_dropD)
  ultimately show ?thesis by simp
qed

lemma in_columns_iff: "in_columns key rs \<longleftrightarrow> (\<exists>r\<in>set rs. map_of r key \<noteq> None)"
  by (simp add: in_columns_def list_ex_iff)

lemma calculate_cumulative_numeric:
  assumes "rs \<noteq> []"
    and "\<forall>r\<in>set rs. map_of r ''Date'' \<noteq> None \<and> (\<exists>v. map_of r key = Some (Num v))"
    and "\<forall>r\<in>set rs. in_int64 (row_value key r)"
  shows "calculate_cumulative rs key =
     Inr (map2 (\<lambda>r c. \<lparr>Date = map_of r ''Date'', Cumulative = c\<rparr>) rs
            (cumsum True 0 (map Some (map (row_value key) rs))))"
proof -
  from assms obtain r where r: "r \<in> set rs" by (cases rs) auto
  with assms(2) have d: "map_of r ''Date'' \<noteq> None" and k: "map_of r key \<noteq> None" by auto
  from r d have cd: "in_columns ''Date'' rs" unfolding in_columns_iff by blast
  from r k have ck: "in_columns key rs" unfolding in_columns_iff by blast
  from r k have "r \<noteq> []" by auto
  with r have ne: "\<not> df_empty rs" using assms(1) by (auto simp: df_empty_def list_all_iff)
  from assms(2) have nc: "numeric_column key rs = Inr (map (\<lambda>r. Some (row_value key r)) rs)"
    by (intro numeric_column_numeric) auto
  have cc: "column_cumsum (map (\<lambda>r. Some (row_value key r)) rs) =
      Inr (cumsum True 0 (map Some (map (row_value key) rs)))"
    using assms(3)
    by (simp add: column_cumsum_def is_int64_column_def list_ex_iff list_all_iff comp_def)
  from assms(1) cd ck ne nc cc show ?thesis
    by (simp add: calculate_cumulative_def)
qed

text \<open>
  C6 (as amended).  On a series whose rows all carry a date and a numeric value field, with values and
  running totals within the 64-bit range of the column, \<open>calculate_cumulative\<close> returns one
  point per row, in order, each with the row's date and the sum of the first \<open>i + 1\<close>
  values; the last cumulative value of a non-empty series is the sum of all values; when the
  values are counts (none negative, as in a zero-filled series) the cumulative values are
  non-decreasing; and the empty series yields the empty list, not an error.
\<close>

theorem calculate_cumulative_prefix_sums:
  assumes "\<forall>r\<in>set series. map_of r ''Date'' \<noteq> None \<and> (\<exists>v. map_of r key = Some (Num v))"
    and "\<forall>r\<in>set series. in_int64 (row_value key r)"
    and "\<forall>i<length series. in_int64 (sum_list (map (row_value key) (take (Suc i) series)))"
  shows "calculate_cumulative [] key = Inr [] \<and>
    (\<exists>out. calculate_cumulative series key = Inr out \<and>
       length out = length series \<and>
       (\<forall>i<length series.
          Date (out ! i) = map_of (series ! i) ''Date'' \<and>
          Cumulative (out ! i) = Some (sum_list (map (row_value key) (take (Suc i) series)))) \<and>
       (series \<noteq> [] \<longrightarrow>
          Cumulative (last out) = Some (sum_list (map (row_value key) series))) \<and>
       ((\<forall>r\<in>set series. 0 \<le> row_value key r) \<longrightarrow>
          sorted (map (\<lambda>p. the (Cumulative p)) out)))"
proof (cases "series = []")
  case True
  then show ?thesis by (simp add: calculate_cumulative_def)
next
  case False
  let ?vs = "map (row_value key) series"
  let ?cs = "cumsum True 0 (map Some ?vs)"
  let ?out = "map2 (\<lambda>r c. \<lparr>Date = map_of r ''Date'', Cumulative = c\<rparr>) series ?cs"
  have res: "calculate_cumulative series key = Inr ?out"
    using calculate_cumulative_numeric [OF False assms(1,2)] .
  have len: "length ?out = length series"
    by (simp add: length_cumsum)
  have fit: "\<forall>j<length ?vs. in_int64 (0 + sum_list (take (Suc j) ?vs))"
    using assms(3) by (simp add: take_map)
  have cs: "?cs ! i = Some (sum_list (take (Suc i) ?vs))" if "i < length series" for i
  proof -
    from that have "i < length ?vs" by simp
    from cumsum_nth [OF this fit] show ?thesis by simp
  qed
  have nth: "Date (?out ! i) = map_of (series ! i) ''Date'' \<and>
      Cumulative (?out ! i) = Some (sum_list (map (row_value key) (take (Suc i) series)))"
    if "i < length series" for i
    using that cs [OF that] by (simp add: length_cumsum take_map)
  have lst: "Cumulative (last ?out) = Some (sum_list (map (row_value key) series))"
  proof -
    from False have pos: "length series - 1 < length series" by (cases series) auto
    from False len have "?out \<noteq> []" by auto
    then have "last ?out = ?out ! (length series - 1)"
      using len by (simp add: last_conv_nth)
    with nth [OF pos] False show ?thesis by (cases series) auto
  qed
  have srt: "sorted (map (\<lambda>p. the (Cumulative p)) ?out)"
    if nn: "\<forall>r\<in>set series. 0 \<le> row_value key r"
  proof -
    from nn have nn': "\<forall>x\<in>set ?vs. 0 \<le> x" by simp
    have "map (\<lambda>p. the (Cumulative p)) ?out ! i \<le> map (\<lambda>p. the (Cumulative p)) ?out ! j"
      if "i \<le> j" "j < length (map (\<lambda>p. the (Cumulative p)) ?out)" for i j
    proof -
      from that len have j: "j < length series" and i: "i < length series" by simp_all
      from cs [OF i] cs [OF j] i j
      have "map (\<lambda>p. the (Cumulative p)) ?out ! i = sum_list (take (Suc i) ?vs)"
        "map (\<lambda>p. the (Cumulative p)) ?out ! j = sum_list (take (Suc j) ?vs)"
        by (simp_all add: length_cumsum)
      moreover from that(1) have "sum_list (take (Suc i) ?vs) \<le> sum_list (take (Suc j) ?vs)"
        by (intro sum_list_take_mono [OF nn']) simp
      ultimately show ?thesis by simp
    qed
    then show ?thesis by (simp only: sorted_iff_nth_mono) blast
  qed
  from res len nth lst srt show ?thesis
    by (auto simp: calculate_cumulative_def)
qed

theorem calculate_cumulative_prefix_sums_witness:
  "\<exists>out. calculate_cumulative
       [[(''Date'', Str ''2024-02-01''), (''Count'', Num 0)],
        [(''Date'', Str ''2024-02-02''), (''Count'', Num 5)],
        [(''Date'', Str ''2024-02-03''), (''Count'', Num 2)]] ''Count'' = Inr out \<and>
     length out = 3 \<and>
     Cumulative (out ! 1) = Some 5 \<and> Cumulative (last out) = Some 7 \<and>
     sorted (map (\<lambda>p. the (Cumulative p)) out)"
proof -
  let ?S = "[[(''Date'', Str ''2024-02-01''), (''Count'', Num 0)],
             [(''Date'', Str ''2024-02-02''), (''Count'', Num 5)],
             [(''Date'', Str ''2024-02-03''), (''Count'', Num 2)]]"
  have wf: "\<forall>r\<in>set ?S. map_of r ''Date'' \<noteq> None \<and> (\<exists>v. map_of r ''Count'' = Some (Num v))"
    by simp
  have fit: "\<forall>r\<in>set ?S. in_int64 (row_value ''Count'' r)"
    by (simp add: row_value_def in_int64_def)
  have sums: "\<forall>i<length ?S. in_int64 (sum_list (map (row_value ''Count'') (take (Suc i) ?S)))"
  proof (intro allI impI)
    fix i assume "i < length ?S"
    then have "i = 0 \<or> i = 1 \<or> i = 2" by auto
    then show "in_int64 (sum_list (map (row_value ''Count'') (take (Suc i) ?S)))"
      by (elim disjE) (simp_all add: row_value_def in_int64_def)
  qed
  have nonneg: "\<forall>r\<in>set ?S. 0 \<le> row_value ''Count'' r"
    by (simp add: row_value_def)
  from calculate_cumulative_prefix_sums [OF wf fit sums] obtain out where
    res: "calculate_cumulative ?S ''Count'' = Inr out" and
    len: "length out = length ?S" and
    nth: "\<forall>i<length ?S. Date (out ! i) = map_of (?S ! i) ''Date'' \<and>
      Cumulative (out ! i) = Some (sum_list (map (row_value ''Count'') (take (Suc i) ?S)))" and
    lst: "?S \<noteq> [] \<longrightarrow> Cumulative (last out) = Some (sum_list (map (row_value ''Count'') ?S))" and
    srt: "(\<forall>r\<in>set ?S. 0 \<le> row_value ''Count'' r) \<longrightarrow> sorted (map (\<lambda>p. the (Cumulative p)) out)"
    by blast
  from nth have "Cumulative (out ! 1) = Some (sum_list (map (row_value ''Count'') (take (Suc 1) ?S)))"
    by simp
  then have one: "Cumulative (out ! 1) = Some 5"
    by (simp add: row_value_def)
  from lst have last: "Cumulative (last out) = Some 7"
    by (simp add: row_value_def)
  from srt nonneg have "sorted (map (\<lambda>p. the (Cumulative p)) out)"
    by blast
  with res len one last show ?thesis
    by simp
qed

text \<open>
  C6 as the specification states it fails beyond the 64-bit range: the running sum of an
  \<open>int64\<close> column wraps around.  For two counts of \<open>2^62\<close> the second cumulative value
  is \<open>-2^63\<close>: it is not the sum of the values, and the cumulative values decrease.
\<close>

theorem calculate_cumulative_wraps:
  "calculate_cumulative
     [[(''Date'', Str ''2024-02-01''), (''Count'', Num 4611686018427387904)],
      [(''Date'', Str ''2024-02-02''), (''Count'', Num 4611686018427387904)]] ''Count'' =
   Inr [\<lparr>Date = Some (Str ''2024-02-01''), Cumulative = Some 4611686018427387904\<rparr>,
        \<lparr>Date = Some (Str ''2024-02-02''), Cumulative = Some (- 9223372036854775808)\<rparr>] \<and>
   (- 9223372036854775808 :: int) \<noteq> 4611686018427387904 + 4611686018427387904 \<and>
   (- 9223372036854775808 :: int) < 4611686018427387904"
  by code_simp

text \<open>
  C10.  When no input record carries the requested value field, \<open>calculate_cumulative\<close>
  returns the empty list and raises nothing, also on a non-empty series.
\<close>

theorem calculate_cumulative_absent_key:
  "\<forall>r\<in>set daily_data. map_of r key = None \<Longrightarrow> calculate_cumulative daily_data key = Inr []"
  by (simp add: calculate_cumulative_def in_columns_iff)

theorem calculate_cumulative_absent_key_witness:
  "calculate_cumulative
     [[(''Date'', Str ''2024-02-01''), (''Count'', Num 3)],
      [(''Date'', Str ''2024-02-02''), (''Count'', Num 4)]] ''New Users'' = Inr []"
  using calculate_cumulative_absent_key
    [of "[[(''Date'', Str ''2024-02-01''), (''Count'', Num 3)],
          [(''Date'', Str ''2024-02-02''), (''Count'', Num 4)]]" "''New Users''"]
  by simp

section \<open>Dates and instants\<close>

text \<open>
  A Python \<open>date\<close> is modelled by its proleptic Gregorian ordinal (\<open>date.toordinal()\<close>:
  0001-01-01 is day 1, 9999-12-31 is day 3652059), so that the order of dates is the order of
  integers, \<open>d + timedelta(days=n)\<close> is \<open>d + n\<close> and \<open>(a - b).days\<close> is \<open>a - b\<close>.
  Date arithmetic raises \<open>OverflowError\<close> when the result leaves the range of the type.
\<close>

type_synonym date = int

definition MAXORDINAL :: int where
  "MAXORDINAL = 3652059"

definition valid_date :: "date \<Rightarrow> bool" where
  "valid_date d = (1 \<le> d \<and> d \<le> MAXORDINAL)"

definition date_add :: "date \<Rightarrow> int \<Rightarrow> error + date" where
  "date_add d n = (if valid_date (d + n) then Inr (d + n) else Inl OverflowError)"

text \<open>
  An aware datetime, converted to Asia/Kolkata, is modelled by the number of microseconds of
  its local time since the start of day 0: the date \<open>d\<close> at time of day \<open>t\<close> is
  \<open>d * 86400000000 + t\<close>.  All comparisons of the source are between datetimes of this one
  zone.
\<close>

type_synonym instant = int

definition DAY_US :: int where
  "DAY_US = 86400000000"

definition ist_instant :: "date \<Rightarrow> int \<Rightarrow> instant" where
  "ist_instant d t = d * DAY_US + t"

definition ist_date :: "instant \<Rightarrow> date" where
  "ist_date t = t div DAY_US"

text \<open>
  \<open>ist.localize(datetime.combine(d, time))\<close>.  pytz looks the zone's offset up at the day
  before and at the day after the datetime, so the call raises \<open>OverflowError\<close> on the
  first and on the last day of the calendar.  \<open>datetime.min.time()\<close> is 00:00:00 and
  \<open>datetime.max.time()\<close> is 23:59:59.999999.
\<close>

definition ist_localize :: "date \<Rightarrow> int \<Rightarrow> error + instant" where
  "ist_localize d t =
     (if 1 < d \<and> d < MAXORDINAL then Inr (ist_instant d t) else Inl OverflowError)"

definition start_of_day_ist :: "date \<Rightarrow> error + instant" where
  "start_of_day_ist d = ist_localize d 0"

definition end_of_day_ist :: "date \<Rightarrow> error + instant" where
  "end_of_day_ist d = ist_localize d (DAY_US - 1)"

section \<open>Page sources\<close>

text \<open>
  One page request has three outcomes: the request or the decoding of its body raises
  (network error, timeout, malformed payload); the status is not 200; or a page arrives,
  with its elements, its next-page cursor (\<open>links.next\<close>, \<open>paging.next.after\<close>) and the
  total of its \<open>meta\<close> block.  A source maps the requested URL (or cursor) to the outcome.

  An element of a page is a record whose fields the loop can read, or \<open>Malformed\<close>: an
  element on which reading the fields raises outside the \<open>try\<close> of the single field (it
  is not an object, or its \<open>attributes\<close> / \<open>properties\<close> member is null or not an
  object).
\<close>

datatype 'r entry = Malformed | Entry 'r

record 'r page =
  page_data :: "'r entry list"
  page_next :: "string option"
  page_total :: int

datatype 'r response = Raises | NotOk | Ok200 "'r page"

text \<open>Python truthiness of a cursor: \<open>None\<close> and the empty string are false.\<close>

definition truthy :: "string option \<Rightarrow> bool" where
  "truthy c = (case c of None \<Rightarrow> False | Some s \<Rightarrow> s \<noteq> [])"

section \<open>Kajabi customers\<close>

text \<open>
  The fields of a customer record that the fetch reads.  A timestamp field is \<open>None\<close>
  when the attribute is absent or empty, or when parsing it raises (the source skips all
  three the same way).
\<close>

record customer =
  c_id :: string
  updated_at :: "instant option"
  created_at :: "instant option"
  last_request_at :: "instant option"

text \<open>
  The \<open>for c in batch\<close> loop of \<open>get_kajabi_new_customers\<close>: \<open>updated_at\<close> older than
  the window start sets \<open>should_stop\<close>; independently, \<open>created_at\<close> within the window
  appends the record.  A malformed element raises; the third component of the result tells
  whether that happened (the records before it are classified, the rest of the page is not).
\<close>

fun classify_customers ::
  "instant \<Rightarrow> instant \<Rightarrow> customer entry list \<Rightarrow> customer list \<Rightarrow> bool \<Rightarrow>
   customer list \<times> bool \<times> bool" where
  "classify_customers dt_start_ist dt_end_ist [] all_customers should_stop =
     (all_customers, should_stop, False)"
| "classify_customers dt_start_ist dt_end_ist (Malformed # batch) all_customers should_stop =
     (all_customers, should_stop, True)"
| "classify_customers dt_start_ist dt_end_ist (Entry c # batch) all_customers should_stop =
     (let should_stop' =
            (case updated_at c of
               None \<Rightarrow> should_stop
             | Some u_date \<Rightarrow> if u_date < dt_start_ist then True else should_stop);
          all_customers' =
            (case created_at c of
               None \<Rightarrow> all_customers
             | Some c_date \<Rightarrow>
                 if dt_start_ist \<le> c_date \<and> c_date \<le> dt_end_ist then all_customers @ [c]
                 else all_customers)
      in classify_customers dt_start_ist dt_end_ist batch all_customers' should_stop')"

text \<open>
  The \<open>while next_url and page_count < 50\<close> loop.  Every exception inside its body ends
  the loop (\<open>except Exception: break\<close>).  The result carries, besides \<open>all_customers\<close>
  and \<open>total_global\<close>, the list of the URLs requested, in order (not a value of the
  source: it records the calls of \<open>requests.get\<close>).
\<close>

function customers_loop ::
  "(string \<Rightarrow> customer response) \<Rightarrow> instant \<Rightarrow> instant \<Rightarrow> string option \<Rightarrow> nat \<Rightarrow>
   customer list \<Rightarrow> int \<Rightarrow> string list \<Rightarrow> customer list \<times> int \<times> string list" where
  "customers_loop src dt_start_ist dt_end_ist next_url page_count all_customers total_global reqs =
     (if \<not> (truthy next_url \<and> page_count < 50) then (all_customers, total_global, reqs)
      else
        (case src (the next_url) of
           Raises \<Rightarrow> (all_customers, total_global, reqs @ [the next_url])
         | NotOk \<Rightarrow> (all_customers, total_global, reqs @ [the next_url])
         | Ok200 data \<Rightarrow>
             (let total_global' = (if page_count = 0 then page_total data else total_global);
                  batch = page_data data
              in if batch = [] then (all_customers, total_global', reqs @ [the next_url])
                 else
                   (case classify_customers dt_start_ist dt_end_ist batch all_customers False of
                      (all_customers', should_stop, raised) \<Rightarrow>
                        if raised then (all_customers', total_global', reqs @ [the next_url])
                        else if should_stop
                        then (all_customers', total_global', reqs @ [the next_url])
                        else customers_loop src dt_start_ist dt_end_ist (page_next data)
                               (page_count + 1) all_customers' total_global'
                               (reqs @ [the next_url])))))"
  by pat_completeness auto
termination
  by (relation "measure (\<lambda>(src, s, e, next_url, page_count, rest). 50 - page_count)") auto

section \<open>Kajabi active customers\<close>

text \<open>
  The \<open>for c in batch\<close> loop of \<open>get_kajabi_active_customers\<close>: \<open>updated_at\<close> older
  than the limit sets \<open>stop_fetching\<close>; independently, \<open>last_request_at\<close> at or after the
  limit counts the customer as active.
\<close>

fun classify_active ::
  "instant \<Rightarrow> customer entry list \<Rightarrow> int \<Rightarrow> bool \<Rightarrow> int \<times> bool \<times> bool" where
  "classify_active dt_limit_ist [] active_count stop_fetching =
     (active_count, stop_fetching, False)"
| "classify_active dt_limit_ist (Malformed # batch) active_count stop_fetching =
     (active_count, stop_fetching, True)"
| "classify_active dt_limit_ist (Entry c # batch) active_count stop_fetching =
     (let stop_fetching' =
            (case updated_at c of
               None \<Rightarrow> stop_fetching
             | Some u_date \<Rightarrow> if u_date < dt_limit_ist then True else stop_fetching);
          active_count' =
            (case last_request_at c of
               None \<Rightarrow> active_count
             | Some lr_date \<Rightarrow> if lr_date \<ge> dt_limit_ist then active_count + 1 else active_count)
      in classify_active dt_limit_ist batch active_count' stop_fetching')"

function active_loop ::
  "(string \<Rightarrow> customer response) \<Rightarrow> instant \<Rightarrow> string option \<Rightarrow> nat \<Rightarrow>
   int \<Rightarrow> int \<Rightarrow> string list \<Rightarrow> int \<times> int \<times> string list" where
  "active_loop src dt_limit_ist next_url page active_count total_customers reqs =
     (if \<not> (truthy next_url \<and> page < 50) then (active_count, total_customers, reqs)
      else
        (case src (the next_url) of
           Raises \<Rightarrow> (active_count, total_customers, reqs @ [the next_url])
         | NotOk \<Rightarrow> (active_count, total_customers, reqs @ [the next_url])
         | Ok200 data \<Rightarrow>
             (let total_customers' = (if page = 0 then page_total data else total_customers);
                  batch = page_data data
              in if batch = [] then (active_count, total_customers', reqs @ [the next_url])
                 else
                   (case classify_active dt_limit_ist batch active_count False of
                      (active_count', stop_fetching, raised) \<Rightarrow>
                        if raised then (active_count', total_customers', reqs @ [the next_url])
                        else if stop_fetching
                        then (active_count', total_customers', reqs @ [the next_url])
                        else active_loop src dt_limit_ist (page_next data) (page + 1)
                               active_count' total_customers' (reqs @ [the next_url])))))"
  by pat_completeness auto
termination
  by (relation "measure (\<lambda>(src, l, next_url, page, rest). 50 - page)") auto

definition active_url :: string where
  "active_url = ''https://api.kajabi.com/v1/customers?limit=100''"

text \<open>
  \<open>get_kajabi_active_customers\<close> returns \<open>(active_count, total_customers)\<close>, and
  \<open>(0, 0)\<close> without a token.  The \<open>_run\<close> function returns the request log with it.
\<close>

definition get_kajabi_active_customers_run ::
  "string option \<Rightarrow> (string \<Rightarrow> customer response) \<Rightarrow> date \<Rightarrow>
   error + int \<times> int \<times> string list" where
  "get_kajabi_active_customers_run token src start_date =
     (if \<not> truthy token then Inr (0, 0, [])
      else and_then (start_of_day_ist start_date)
             (\<lambda>dt_limit_ist. Inr (active_loop src dt_limit_ist (Some active_url) 0 0 0 [])))"

definition get_kajabi_active_customers ::
  "string option \<Rightarrow> (string \<Rightarrow> customer response) \<Rightarrow> date \<Rightarrow> error + int \<times> int" where
  "get_kajabi_active_customers token src start_date =
     and_then (get_kajabi_active_customers_run token src start_date)
       (\<lambda>(active_count, total_customers, reqs). Inr (active_count, total_customers))"

section \<open>Kajabi purchases\<close>

text \<open>
  \<open>amount_in_cents\<close> holds the value of \<^verbatim>\<open>float(attrs.get('amount_in_cents', 0) or 0)\<close>:
  0 when the attribute is absent or null, \<open>None\<close> when \<open>float\<close> raises (the enclosing
  \<open>try\<close> then skips the record).
\<close>

record purchase =
  p_id :: string
  p_created_at :: "instant option"
  amount_in_cents :: "real option"

fun classify_purchases ::
  "instant \<Rightarrow> instant \<Rightarrow> purchase entry list \<Rightarrow> real \<Rightarrow> purchase list \<Rightarrow> bool \<Rightarrow>
   real \<times> purchase list \<times> bool \<times> bool" where
  "classify_purchases dt_start_ist dt_end_ist [] revenue filtered should_stop =
     (revenue, filtered, should_stop, False)"
| "classify_purchases dt_start_ist dt_end_ist (Malformed # batch) revenue filtered should_stop =
     (revenue, filtered, should_stop, True)"
| "classify_purchases dt_start_ist dt_end_ist (Entry p # batch) revenue filtered should_stop =
     (case p_created_at p of
        None \<Rightarrow> classify_purchases dt_start_ist dt_end_ist batch revenue filtered should_stop
      | Some p_date \<Rightarrow>
          if p_date < dt_start_ist
          then classify_purchases dt_start_ist dt_end_ist batch revenue filtered True
          else if dt_start_ist \<le> p_date \<and> p_date \<le> dt_end_ist
          then (case amount_in_cents p of
                  None \<Rightarrow>
                    classify_purchases dt_start_ist dt_end_ist batch revenue filtered should_stop
                | Some cents \<Rightarrow>
                    classify_purchases dt_start_ist dt_end_ist batch
                      (revenue + cents / 100) (filtered @ [p]) should_stop)
          else classify_purchases dt_start_ist dt_end_ist batch revenue filtered should_stop)"

function sales_loop ::
  "(string \<Rightarrow> purchase response) \<Rightarrow> instant \<Rightarrow> instant \<Rightarrow> string option \<Rightarrow> nat \<Rightarrow>
   real \<Rightarrow> purchase list \<Rightarrow> string list \<Rightarrow> real \<times> purchase list \<times> string list" where
  "sales_loop src dt_start_ist dt_end_ist next_url page_count revenue filtered reqs =
     (if \<not> (truthy next_url \<and> page_count < 50) then (revenue, filtered, reqs)
      else
        (case src (the next_url) of
           Raises \<Rightarrow> (revenue, filtered, reqs @ [the next_url])
         | NotOk \<Rightarrow> (revenue, filtered, reqs @ [the next_url])
         | Ok200 data \<Rightarrow>
             (let batch = page_data data
              in if batch = [] then (revenue, filtered, reqs @ [the next_url])
                 else
                   (case classify_purchases dt_start_ist dt_end_ist batch revenue filtered False of
                      (revenue', filtered', should_stop, raised) \<Rightarrow>
                        if raised then (revenue', filtered', reqs @ [the next_url])
                        else if should_stop then (revenue', filtered', reqs @ [the next_url])
                        else sales_loop src dt_start_ist dt_end_ist (page_next data)
                               (page_count + 1) revenue' filtered' (reqs @ [the next_url])))))"
  by pat_completeness auto
termination
  by (relation "measure (\<lambda>(src, s, e, next_url, page_count, rest). 50 - page_count)") auto

text \<open>
  \<open>get_kajabi_sales\<close> returns \<open>(revenue, filtered)\<close>, and \<open>(0.0, [])\<close> without a token;
  the first URL is \<^verbatim>\<open>https://api.kajabi.com/v1/purchases?limit=100\<close>.  The two
  \<open>localize\<close> calls stand before the loop, outside every \<open>try\<close>.
\<close>

definition sales_url :: string where
  "sales_url = ''https://api.kajabi.com/v1/purchases?limit=100''"

definition get_kajabi_sales_run ::
  "string option \<Rightarrow> (string \<Rightarrow> purchase response) \<Rightarrow> date \<Rightarrow> date \<Rightarrow>
   error + real \<times> purchase list \<times> string list" where
  "get_kajabi_sales_run token src target_month_start target_month_end =
     (if \<not> truthy token then Inr (0, [], [])
      else and_then (start_of_day_ist target_month_start) (\<lambda>dt_start_ist.
           and_then (end_of_day_ist target_month_end) (\<lambda>dt_end_ist.
           Inr (sales_loop src dt_start_ist dt_end_ist (Some sales_url) 0 0 [] []))))"

definition get_kajabi_sales ::
  "string option \<Rightarrow> (string \<Rightarrow> purchase response) \<Rightarrow> date \<Rightarrow> date \<Rightarrow>
   error + real \<times> purchase list" where
  "get_kajabi_sales token src target_month_start target_month_end =
     and_then (get_kajabi_sales_run token src target_month_start target_month_end)
       (\<lambda>(revenue, filtered, reqs). Inr (revenue, filtered))"

section \<open>Calendar\<close>

text \<open>
  The proleptic Gregorian calendar of Python's \<open>datetime\<close>: leap years, the days before a
  year and before a month, and the ordinal of year, month and day.
\<close>

definition is_leap :: "int \<Rightarrow> bool" where
  "is_leap y = (y mod 4 = 0 \<and> (y mod 100 \<noteq> 0 \<or> y mod 400 = 0))"

definition days_before_year :: "int \<Rightarrow> int" where
  "days_before_year y = (y - 1) * 365 + (y - 1) div 4 - (y - 1) div 100 + (y - 1) div 400"

lemma div_step:
  fixes y k :: int
  assumes k: "0 < k"
  shows "y div k = (y - 1) div k + (if y mod k = 0 then 1 else 0)"
proof -
  have y: "y = k * (y div k) + y mod k" by simp
  show ?thesis
  proof (cases "y mod k = 0")
    case True
    then have "y - 1 = k * (y div k - 1) + (k - 1)" using y by (simp add: algebra_simps)
    moreover have "0 \<le> k - 1" "k - 1 < k" using k by simp_all
    ultimately have "(y - 1) div k = y div k - 1"
      by (metis div_pos_pos_trivial add.commute div_mult_self2 k less_irrefl add_0)
    with True show ?thesis by simp
  next
    case False
    have "0 \<le> y mod k" "y mod k < k" using k by simp_all
    with False have r: "0 \<le> y mod k - 1" "y mod k - 1 < k" by simp_all
    have "y - 1 = k * (y div k) + (y mod k - 1)" using y by simp
    then have "(y - 1) div k = y div k + (y mod k - 1) div k"
      by (metis add.commute div_mult_self2 k less_irrefl)
    with r show ?thesis using False by (simp add: div_pos_pos_trivial)
  qed
qed

lemma dvd_chain_mod:
  fixes y :: int
  assumes "y mod b = 0" "a dvd b"
  shows "y mod a = 0"
proof -
  from assms(1) have "b dvd y" by (simp add: dvd_eq_mod_eq_0)
  with assms(2) have "a dvd y" using dvd_trans by blast
  then show ?thesis by (simp add: dvd_eq_mod_eq_0)
qed

lemma days_before_year_Suc:
  "days_before_year (y + 1) = days_before_year y + (if is_leap y then 366 else 365)"
proof -
  define a b c where "a = (y - 1) div 4" and "b = (y - 1) div 100" and "c = (y - 1) div 400"
  define p4 p100 p400 where "p4 = (y mod 4 = 0)" and "p100 = (y mod 100 = 0)" and "p400 = (y mod 400 = 0)"
  have e4: "y div 4 = a + (if p4 then 1 else 0)"
    unfolding a_def p4_def by (rule div_step) simp
  have e100: "y div 100 = b + (if p100 then 1 else 0)"
    unfolding b_def p100_def by (rule div_step) simp
  have e400: "y div 400 = c + (if p400 then 1 else 0)"
    unfolding c_def p400_def by (rule div_step) simp
  have d1: "(100::int) dvd 400" and d2: "(4::int) dvd 100" by simp_all
  have i1: "p400 \<Longrightarrow> p100" unfolding p400_def p100_def by (rule dvd_chain_mod [OF _ d1])
  have i2: "p100 \<Longrightarrow> p4" unfolding p4_def p100_def by (rule dvd_chain_mod [OF _ d2])
  have l: "days_before_year (y + 1) = y * 365 + y div 4 - y div 100 + y div 400"
    by (simp add: days_before_year_def)
  have r: "days_before_year y = (y - 1) * 365 + a - b + c"
    by (simp only: days_before_year_def a_def b_def c_def)
  have lp: "is_leap y = (p4 \<and> (\<not> p100 \<or> p400))"
    by (simp only: is_leap_def p4_def p100_def p400_def)
  show ?thesis
    unfolding l r lp e4 e100 e400 using i1 i2 by (cases p4; cases p100; cases p400) simp_all
qed

lemma days_before_year_strict: "days_before_year y < days_before_year (y + 1)"
  by (simp add: days_before_year_Suc)

lemma days_before_year_mono: "a \<le> b \<Longrightarrow> days_before_year a \<le> days_before_year b"
proof (induction b rule: int_ge_induct)
  case base
  show ?case by simp
next
  case (step i)
  with days_before_year_strict [of i] show ?case by simp
qed

lemma days_before_year_less: "days_before_year a < days_before_year b \<Longrightarrow> a < b"
  using days_before_year_mono [of b a] by (cases "a < b") simp_all

text \<open>
  The year of an ordinal: the search runs upwards from a lower estimate to the year \<open>y\<close>
  with \<open>days_before_year y < n \<le> days_before_year (y + 1)\<close>.
\<close>

function year_from :: "int \<Rightarrow> int \<Rightarrow> int" where
  "year_from y n = (if days_before_year (y + 1) < n then year_from (y + 1) n else y)"
  by pat_completeness auto
termination
proof (relation "measure (\<lambda>(y, n). nat (n - days_before_year (y + 1)))")
  show "wf (measure (\<lambda>(y, n). nat (n - days_before_year (y + 1))))" by simp
next
  fix y n :: int
  assume "days_before_year (y + 1) < n"
  with days_before_year_strict [of "y + 1"]
  show "((y + 1, n), (y, n)) \<in> measure (\<lambda>(y, n). nat (n - days_before_year (y + 1)))"
    by simp
qed

declare year_from.simps [simp del]

definition year_of :: "int \<Rightarrow> int" where
  "year_of n = year_from ((n - 1) div 366 + 1) n"

lemma year_from_bounds:
  "days_before_year y < n \<Longrightarrow>
   days_before_year (year_from y n) < n \<and> n \<le> days_before_year (year_from y n + 1)"
proof (induction y n rule: year_from.induct)
  case (1 y n)
  show ?case
  proof (cases "days_before_year (y + 1) < n")
    case True
    from "1.IH" [OF True True] True show ?thesis
      by (subst (1 2) year_from.simps) simp
  next
    case False
    with "1.prems" show ?thesis
      by (subst (1 2) year_from.simps) simp
  qed
qed

lemma year_from_ge: "y \<le> year_from y n"
proof (induction y n rule: year_from.induct)
  case (1 y n)
  show ?case
  proof (cases "days_before_year (y + 1) < n")
    case True
    from "1.IH" [OF True] True show ?thesis
      by (subst year_from.simps) simp
  next
    case False
    then show ?thesis
      by (subst year_from.simps) simp
  qed
qed

lemma year_estimate:
  assumes "1 \<le> n"
  shows "days_before_year ((n - 1) div 366 + 1) < n \<and> 1 \<le> (n - 1) div 366 + 1"
proof -
  define q where "q = (n - 1) div 366"
  define r where "r = (n - 1) mod 366"
  define a b c where "a = q div 4" and "b = q div 100" and "c = q div 400"
  from assms have q0: "0 \<le> q" by (simp add: q_def)
  have "q * 366 + r = n - 1"
    unfolding q_def r_def by simp
  moreover have "0 \<le> r" unfolding r_def by simp
  ultimately have le: "q * 366 \<le> n - 1" by simp
  have "a \<le> q div 1" unfolding a_def using q0 by (intro zdiv_mono2) simp_all
  then have a: "a \<le> q" by simp
  have b: "c \<le> b" unfolding b_def c_def using q0 by (intro zdiv_mono2) simp_all
  have "days_before_year (q + 1) = q * 365 + a - b + c"
    by (simp add: days_before_year_def a_def b_def c_def)
  with a b le have "days_before_year (q + 1) < n" by simp
  with q0 show ?thesis unfolding q_def by simp
qed

lemma year_of_bounds:
  assumes "1 \<le> n"
  shows "days_before_year (year_of n) < n \<and> n \<le> days_before_year (year_of n + 1) \<and> 1 \<le> year_of n"
proof -
  define y0 where "y0 = (n - 1) div 366 + 1"
  from year_estimate [OF assms] have e: "days_before_year y0 < n" and p: "1 \<le> y0"
    by (simp_all only: y0_def)
  have yo: "year_of n = year_from y0 n" by (simp only: year_of_def y0_def)
  from year_from_ge [of y0 n] p have "1 \<le> year_from y0 n" by simp
  with year_from_bounds [OF e] show ?thesis unfolding yo by simp
qed

lemma year_of_unique:
  assumes "1 \<le> n" "days_before_year y < n" "n \<le> days_before_year (y + 1)"
  shows "year_of n = y"
proof -
  from year_of_bounds [OF assms(1)] have
    l: "days_before_year (year_of n) < n" and u: "n \<le> days_before_year (year_of n + 1)" by simp_all
  from assms(2) u have "days_before_year y < days_before_year (year_of n + 1)" by simp
  then have "y < year_of n + 1" by (rule days_before_year_less)
  moreover from l assms(3) have "days_before_year (year_of n) < days_before_year (y + 1)" by simp
  then have "year_of n < y + 1" by (rule days_before_year_less)
  ultimately show ?thesis by simp
qed

lemma days_before_year_10000: "days_before_year 10000 = 3652059"
  by (simp add: days_before_year_def)

lemma days_before_year_1: "days_before_year 1 = 0"
  by (simp add: days_before_year_def)

lemma year_of_le_9999:
  assumes "1 \<le> n" "n \<le> 3652059"
  shows "year_of n \<le> 9999"
proof -
  from year_of_bounds [OF assms(1)] assms(2) have "days_before_year (year_of n) < days_before_year 10000"
    by (simp add: days_before_year_10000)
  then have "year_of n < 10000" by (rule days_before_year_less)
  then show ?thesis by simp
qed

definition days_in_month :: "int \<Rightarrow> int \<Rightarrow> int" where
  "days_in_month y m =
     (if m = 2 then (if is_leap y then 29 else 28)
      else if m = 4 \<or> m = 6 \<or> m = 9 \<or> m = 11 then 30 else 31)"

definition days_before_month :: "int \<Rightarrow> int \<Rightarrow> int" where
  "days_before_month y m =
     [0, 31, 59, 90, 120, 151, 181, 212, 243, 273, 304, 334] ! nat (m - 1)
       + (if m > 2 \<and> is_leap y then 1 else 0)"

definition ymd2ord :: "int \<Rightarrow> int \<Rightarrow> int \<Rightarrow> int" where
  "ymd2ord y m d = days_before_year y + days_before_month y m + d"

lemma days_before_month_Suc:
  assumes "1 \<le> m" "m < 12"
  shows "days_before_month y (m + 1) = days_before_month y m + days_in_month y m"
proof -
  from assms have "m = 1 \<or> m = 2 \<or> m = 3 \<or> m = 4 \<or> m = 5 \<or> m = 6 \<or> m = 7 \<or> m = 8 \<or> m = 9 \<or>
         m = 10 \<or> m = 11" by arith
  then show ?thesis
    by (elim disjE) (simp_all add: days_before_month_def days_in_month_def)
qed

lemma days_before_month_1: "days_before_month y 1 = 0"
  by (simp add: days_before_month_def)

lemma days_before_month_12:
  "days_before_month y 12 + days_in_month y 12 = (if is_leap y then 366 else 365)"
  by (simp add: days_before_month_def days_in_month_def)

lemma days_in_month_pos: "28 \<le> days_in_month y m"
  by (simp add: days_in_month_def)

lemma days_before_month_mono:
  assumes "1 \<le> a" "a \<le> b" "b \<le> 12"
  shows "days_before_month y a \<le> days_before_month y b"
  using assms(2,1,3)
proof (induction b rule: int_ge_induct)
  case base
  show ?case by simp
next
  case (step i)
  then have "days_before_month y (i + 1) = days_before_month y i + days_in_month y i"
    by (intro days_before_month_Suc) simp_all
  with step days_in_month_pos [of y i] show ?case by simp
qed

lemma days_before_month_end:
  assumes "1 \<le> m" "m \<le> 12"
  shows "days_before_month y m + days_in_month y m \<le> (if is_leap y then 366 else 365)"
proof (cases "m = 12")
  case True
  then show ?thesis using days_before_month_12 [of y] by simp
next
  case False
  with assms have lt: "m < 12" by simp
  from days_before_month_Suc [OF assms(1) lt]
  have "days_before_month y m + days_in_month y m = days_before_month y (m + 1)" by simp
  also from assms lt have "\<dots> \<le> days_before_month y 12"
    by (intro days_before_month_mono) simp_all
  also have "\<dots> \<le> (if is_leap y then 366 else 365)"
    using days_before_month_12 [of y] days_in_month_pos [of y 12] by (simp split: if_splits)
  finally show ?thesis .
qed

text \<open>
  The month and the day of an ordinal: the months of the year are passed one by one while the
  remaining day of the year exceeds the length of the month.
\<close>

function month_from :: "int \<Rightarrow> int \<Rightarrow> int \<Rightarrow> int \<times> int" where
  "month_from y m r =
     (if m < 12 \<and> days_in_month y m < r then month_from y (m + 1) (r - days_in_month y m)
      else (m, r))"
  by pat_completeness auto
termination
  by (relation "measure (\<lambda>(y, m, r). nat (12 - m))") auto

declare month_from.simps [simp del]

definition month_of :: "int \<Rightarrow> int" where
  "month_of n = fst (month_from (year_of n) 1 (n - days_before_year (year_of n)))"

definition day_of :: "int \<Rightarrow> int" where
  "day_of n = snd (month_from (year_of n) 1 (n - days_before_year (year_of n)))"

lemma month_from_spec:
  assumes "month_from y m r = (m', d')" "1 \<le> m" "m \<le> 12" "1 \<le> r"
    and "days_before_month y m + r \<le> (if is_leap y then 366 else 365)"
  shows "m \<le> m' \<and> m' \<le> 12 \<and> 1 \<le> d' \<and> d' \<le> days_in_month y m' \<and>
         days_before_month y m' + d' = days_before_month y m + r"
  using assms
proof (induction y m r rule: month_from.induct)
  case (1 y m r)
  show ?case
  proof (cases "m < 12 \<and> days_in_month y m < r")
    case True
    then have lt: "m < 12" and big: "days_in_month y m < r" by simp_all
    from "1.prems"(1) True have rec: "month_from y (m + 1) (r - days_in_month y m) = (m', d')"
      by (subst (asm) month_from.simps) simp
    have s: "days_before_month y (m + 1) = days_before_month y m + days_in_month y m"
      using "1.prems"(2) lt by (rule days_before_month_Suc)
    have p1: "1 \<le> m + 1" and p2: "m + 1 \<le> 12" and p3: "1 \<le> r - days_in_month y m"
      using "1.prems"(2) lt big by simp_all
    have p4: "days_before_month y (m + 1) + (r - days_in_month y m)
        \<le> (if is_leap y then 366 else 365)"
      using "1.prems"(5) unfolding s by simp
    from "1.IH" [OF True rec p1 p2 p3 p4] show ?thesis
      unfolding s by simp
  next
    case False
    from "1.prems"(1) False have e: "m' = m" "d' = r"
      by (subst (asm) month_from.simps, simp)+
    have "r \<le> days_in_month y m"
    proof (cases "m < 12")
      case True
      with False show ?thesis by simp
    next
      case False
      with "1.prems"(3) have "m = 12" by simp
      with "1.prems"(5) days_before_month_12 [of y] show ?thesis by (simp split: if_splits)
    qed
    with e "1.prems" show ?thesis by simp
  qed
qed

lemma ymd_unique:
  assumes m: "1 \<le> m" "m \<le> 12" and m': "1 \<le> m'" "m' \<le> 12"
    and d: "1 \<le> d" "d \<le> days_in_month y m" and d': "1 \<le> d'" "d' \<le> days_in_month y m'"
    and eq: "days_before_month y m + d = days_before_month y m' + d'"
  shows "m = m' \<and> d = d'"
proof -
  have no_lt: False if a: "1 \<le> a" "a < b" "b \<le> 12"
    and da: "da \<le> days_in_month y a" and db: "1 \<le> db"
    and e: "days_before_month y a + da = days_before_month y b + db" for a b da db
  proof -
    from a have "days_before_month y (a + 1) = days_before_month y a + days_in_month y a"
      by (intro days_before_month_Suc) simp_all
    moreover from a have "days_before_month y (a + 1) \<le> days_before_month y b"
      by (intro days_before_month_mono) simp_all
    ultimately show False using da db e by simp
  qed
  have "m = m'"
  proof (rule ccontr)
    assume "m \<noteq> m'"
    then consider "m < m'" | "m' < m" by linarith
    then show False
    proof cases
      case 1
      from no_lt [OF m(1) 1 m'(2) d(2) d'(1) eq] show False .
    next
      case 2
      from no_lt [OF m'(1) 2 m(2) d'(2) d(1) eq [symmetric]] show False .
    qed
  qed
  with eq show ?thesis by simp
qed

text \<open>The fields that \<open>date(y, m, d)\<close> and \<open>replace\<close> accept.\<close>

definition valid_ymd :: "int \<Rightarrow> int \<Rightarrow> int \<Rightarrow> bool" where
  "valid_ymd y m d = (1 \<le> y \<and> y \<le> 9999 \<and> 1 \<le> m \<and> m \<le> 12 \<and> 1 \<le> d \<and> d \<le> days_in_month y m)"

lemma ymd_of_ordinal:
  assumes "1 \<le> n"
  shows "1 \<le> month_of n \<and> month_of n \<le> 12 \<and> 1 \<le> day_of n \<and>
         day_of n \<le> days_in_month (year_of n) (month_of n) \<and>
         ymd2ord (year_of n) (month_of n) (day_of n) = n"
proof -
  let ?y = "year_of n"
  let ?r = "n - days_before_year ?y"
  from year_of_bounds [OF assms] have l: "days_before_year ?y < n"
    and u: "n \<le> days_before_year (?y + 1)" by simp_all
  from l have r1: "1 \<le> ?r" by simp
  from u have r2: "days_before_month ?y 1 + ?r \<le> (if is_leap ?y then 366 else 365)"
    by (simp add: days_before_year_Suc days_before_month_1 split: if_splits)
  obtain m' d' where md: "month_from ?y 1 ?r = (m', d')" by (cases "month_from ?y 1 ?r")
  from month_from_spec [OF md _ _ r1 r2] md show ?thesis
    by (simp add: month_of_def day_of_def ymd2ord_def days_before_month_1)
qed

lemma ymd2ord_bounds:
  assumes "1 \<le> m" "m \<le> 12" "1 \<le> d" "d \<le> days_in_month y m"
  shows "days_before_year y < ymd2ord y m d \<and> ymd2ord y m d \<le> days_before_year (y + 1)"
proof -
  from assms(1,2) have "0 \<le> days_before_month y m"
    using days_before_month_mono [of 1 m y] by (simp add: days_before_month_1)
  moreover from days_before_month_end [OF assms(1,2), of y] assms(4)
  have "days_before_month y m + d \<le> (if is_leap y then 366 else 365)"
    by (simp split: if_splits)
  ultimately show ?thesis using assms(3)
    by (simp add: ymd2ord_def days_before_year_Suc split: if_splits)
qed

lemma ordinal_of_ymd:
  assumes "1 \<le> y" "1 \<le> m" "m \<le> 12" "1 \<le> d" "d \<le> days_in_month y m"
  shows "year_of (ymd2ord y m d) = y \<and> month_of (ymd2ord y m d) = m \<and>
         day_of (ymd2ord y m d) = d \<and> 1 \<le> ymd2ord y m d"
proof -
  let ?n = "ymd2ord y m d"
  from ymd2ord_bounds [OF assms(2-5)] have b: "days_before_year y < ?n"
    "?n \<le> days_before_year (y + 1)" by simp_all
  from assms(1) have "days_before_year 1 \<le> days_before_year y" by (rule days_before_year_mono)
  with b(1) have n1: "1 \<le> ?n" by (simp add: days_before_year_1)
  from year_of_unique [OF n1 b] have y: "year_of ?n = y" .
  from ymd_of_ordinal [OF n1] have v: "1 \<le> month_of ?n" "month_of ?n \<le> 12" "1 \<le> day_of ?n"
    "day_of ?n \<le> days_in_month y (month_of ?n)"
    "ymd2ord y (month_of ?n) (day_of ?n) = ?n" by (simp_all add: y)
  from v(5) have "days_before_month y (month_of ?n) + day_of ?n = days_before_month y m + d"
    by (simp add: ymd2ord_def)
  from ymd_unique [OF v(1,2) assms(2,3) v(3,4) assms(4,5) this] y n1 show ?thesis by simp
qed


section \<open>Comparison windows\<close>

text \<open>
  A naive \<open>datetime\<close> (what \<open>datetime.now()\<close> returns): its date and its time of day in
  microseconds since midnight.
\<close>

record datetime =
  dt_date :: date
  dt_time :: int

definition valid_datetime :: "datetime \<Rightarrow> bool" where
  "valid_datetime dt = (valid_date (dt_date dt) \<and> 0 \<le> dt_time dt \<and> dt_time dt < DAY_US)"

text \<open>\<open>a < b\<close> on datetimes.\<close>

definition dt_less :: "datetime \<Rightarrow> datetime \<Rightarrow> bool" where
  "dt_less a b = (dt_date a < dt_date b \<or> dt_date a = dt_date b \<and> dt_time a < dt_time b)"

text \<open>
  \<open>dt + timedelta(days=n)\<close> keeps the time of day and raises \<open>OverflowError\<close> when the
  date leaves the range of the type.
\<close>

definition add_days :: "datetime \<Rightarrow> int \<Rightarrow> error + datetime" where
  "add_days dt n =
     (if valid_date (dt_date dt + n) then Inr (dt\<lparr>dt_date := dt_date dt + n\<rparr>)
      else Inl OverflowError)"

text \<open>
  \<open>(a - b).days\<close>: a \<open>timedelta\<close> is normalised to days, seconds and microseconds with
  the last two non-negative, so \<open>.days\<close> is the difference in microseconds divided by the
  length of a day, rounded down.
\<close>

definition microseconds :: "datetime \<Rightarrow> int" where
  "microseconds dt = dt_date dt * DAY_US + dt_time dt"

definition days_between :: "datetime \<Rightarrow> datetime \<Rightarrow> int" where
  "days_between a b = (microseconds a - microseconds b) div DAY_US"

text \<open>
  \<open>dt.replace(year=y, month=m, day=d)\<close> keeps the time of day and raises \<open>ValueError\<close>
  when the fields are not a date.
\<close>

definition replace_ymd :: "datetime \<Rightarrow> int \<Rightarrow> int \<Rightarrow> int \<Rightarrow> error + datetime" where
  "replace_ymd dt y m d =
     (if valid_ymd y m d then Inr (dt\<lparr>dt_date := ymd2ord y m d\<rparr>) else Inl ValueError)"

text \<open>
  \<open>get_comparison_dates\<close> of the Flask application.  The function reads the clock twice:
  \<open>now1\<close> is the value of \<open>base_date = datetime.now()\<close> and \<open>now2\<close> that of
  \<open>today = datetime.now()\<close> a few statements later.  The \<open>try\<close> around the computation
  of \<open>month2_end\<close> falls back to \<open>last_month_last_day\<close>.  The result is
  \<open>(month1_start.date(), month1_end.date(), month2_start.date(), month2_end.date(),
  base_date)\<close>.
\<close>

definition get_comparison_dates ::
  "datetime \<Rightarrow> datetime \<Rightarrow> int \<Rightarrow> error + (date \<times> date \<times> date \<times> date \<times> datetime)" where
  "get_comparison_dates now1 now2 month_offset =
     and_then (if month_offset > 0 then add_days now1 (- (30 * month_offset)) else Inr now1)
       (\<lambda>base_date.
     let today = now2;
         year = year_of (dt_date base_date);
         month = month_of (dt_date base_date) in
     and_then (replace_ymd base_date year month 1)
       (\<lambda>month1_start.
     and_then
       (if year = year_of (dt_date today) \<and> month = month_of (dt_date today)
        then Inr today
        else and_then
               (if month = 12 then replace_ymd base_date (year + 1) 1 1
                else replace_ymd base_date year (month + 1) 1)
               (\<lambda>next_month. add_days next_month (- 1)))
       (\<lambda>month1_end.
     let days_passed = days_between month1_end month1_start in
     and_then (add_days month1_start (- 1))
       (\<lambda>last_month_last_day.
     and_then (replace_ymd last_month_last_day (year_of (dt_date last_month_last_day))
                 (month_of (dt_date last_month_last_day)) 1)
       (\<lambda>month2_start.
     let month2_end =
           (case add_days month2_start days_passed of
              Inl e \<Rightarrow> last_month_last_day
            | Inr month2_end \<Rightarrow>
                if dt_less last_month_last_day month2_end then last_month_last_day
                else month2_end)
     in Inr (dt_date month1_start, dt_date month1_end, dt_date month2_start,
             dt_date month2_end, base_date))))))"

lemma days_before_year_nonneg: "1 \<le> y \<Longrightarrow> 0 \<le> days_before_year y"
  using days_before_year_mono [of 1 y] by (simp add: days_before_year_1)

lemma days_before_month_nonneg: "1 \<le> m \<Longrightarrow> m \<le> 12 \<Longrightarrow> 0 \<le> days_before_month y m"
  using days_before_month_mono [of 1 m y] by (simp add: days_before_month_1)

text \<open>Every day between the first and the last day of a month has that month's year and month.\<close>

lemma within_month:
  assumes "1 \<le> y" "1 \<le> m" "m \<le> 12"
    and "ymd2ord y m 1 \<le> x" "x \<le> ymd2ord y m (days_in_month y m)"
  shows "year_of x = y \<and> month_of x = m \<and> day_of x = x - ymd2ord y m 1 + 1"
proof -
  define d where "d = x - ymd2ord y m 1 + 1"
  from assms(4,5) have d: "1 \<le> d" "d \<le> days_in_month y m"
    by (simp_all add: d_def ymd2ord_def)
  have x: "x = ymd2ord y m d" by (simp add: d_def ymd2ord_def)
  from ordinal_of_ymd [OF assms(1-3) d] show ?thesis
    unfolding x [symmetric] by (simp add: d_def)
qed

lemma ymd2ord_le_max:
  assumes "y \<le> 9999" "1 \<le> m" "m \<le> 12" "d \<le> days_in_month y m"
  shows "ymd2ord y m d \<le> MAXORDINAL"
proof -
  from days_before_month_end [OF assms(2,3), of y] assms(4)
  have "ymd2ord y m d \<le> days_before_year (y + 1)"
    by (simp add: ymd2ord_def days_before_year_Suc split: if_splits)
  also from assms(1) have "\<dots> \<le> days_before_year 10000"
    by (intro days_before_year_mono) simp
  finally show ?thesis by (simp add: days_before_year_10000 MAXORDINAL_def)
qed

text \<open>The day before the first of a month is the last day of the month before.\<close>

definition prev_year :: "int \<Rightarrow> int \<Rightarrow> int" where
  "prev_year y m = (if m = 1 then y - 1 else y)"

definition prev_month :: "int \<Rightarrow> int" where
  "prev_month m = (if m = 1 then 12 else m - 1)"

lemma day_before_first:
  assumes "1 \<le> m" "m \<le> 12"
  shows "ymd2ord y m 1 - 1 =
         ymd2ord (prev_year y m) (prev_month m) (days_in_month (prev_year y m) (prev_month m))"
proof (cases "m = 1")
  case True
  have "days_before_year y = days_before_year (y - 1) + (if is_leap (y - 1) then 366 else 365)"
    using days_before_year_Suc [of "y - 1"] by simp
  with True days_before_month_12 [of "y - 1"] show ?thesis
    by (simp add: ymd2ord_def prev_year_def prev_month_def days_before_month_1 split: if_splits)
next
  case False
  with assms have "1 \<le> m - 1" "m - 1 < 12" by simp_all
  from days_before_month_Suc [OF this, of y] False show ?thesis
    by (simp add: ymd2ord_def prev_year_def prev_month_def)
qed

text \<open>The day before the first of the next month is the last day of the month.\<close>

lemma last_day_of_month:
  assumes "1 \<le> m" "m \<le> 12"
  shows "(if m = 12 then ymd2ord (y + 1) 1 1 else ymd2ord y (m + 1) 1) - 1 =
         ymd2ord y m (days_in_month y m)"
proof (cases "m = 12")
  case True
  with days_before_month_12 [of y] show ?thesis
    by (simp add: ymd2ord_def days_before_year_Suc days_before_month_1 split: if_splits)
next
  case False
  with assms have "m < 12" by simp
  from days_before_month_Suc [OF assms(1) this, of y] False show ?thesis
    by (simp add: ymd2ord_def)
qed

lemma days_before_year_2: "days_before_year 2 = 365"
  by (simp add: days_before_year_def)

lemma days_before_month_2: "days_before_month y 2 = 31"
  by (simp add: days_before_month_def)

lemma valid_ymd_first: "1 \<le> y \<Longrightarrow> y \<le> 9999 \<Longrightarrow> 1 \<le> m \<Longrightarrow> m \<le> 12 \<Longrightarrow> valid_ymd y m 1"
  using days_in_month_pos [of y m] by (simp add: valid_ymd_def)

text \<open>The whole days between two datetimes, from their dates and times of day.\<close>

lemma floor_days:
  fixes q r D :: int
  assumes "0 < D" "- D < r" "r < D"
  shows "(q * D + r) div D = q - (if r < 0 then 1 else 0)"
proof -
  have a: "(q * D + r) div D = q + r div D"
    using assms(1) by simp
  show ?thesis
  proof (cases "r < 0")
    case True
    with assms have "0 \<le> r + D" "r + D < D" by simp_all
    then have "(r + D) div D = 0" by (rule div_pos_pos_trivial)
    moreover have "(r + D) div D = r div D + 1" using assms(1) by simp
    ultimately have "r div D = - 1" by simp
    with a True show ?thesis by simp
  next
    case False
    with assms have "r div D = 0" by (intro div_pos_pos_trivial) simp_all
    with a False show ?thesis by simp
  qed
qed

lemma days_between_eq:
  assumes "0 \<le> dt_time a" "dt_time a < DAY_US" "0 \<le> dt_time b" "dt_time b < DAY_US"
  shows "days_between a b =
         dt_date a - dt_date b - (if dt_time a < dt_time b then 1 else 0)"
proof -
  define D where "D = DAY_US"
  have D: "0 < D" by (simp add: D_def DAY_US_def)
  have "microseconds a - microseconds b =
        (dt_date a - dt_date b) * D + (dt_time a - dt_time b)"
    by (simp add: microseconds_def D_def algebra_simps)
  moreover have "- D < dt_time a - dt_time b" "dt_time a - dt_time b < D"
    using assms by (simp_all add: D_def)
  ultimately show ?thesis
    using floor_days [OF D, of "dt_time a - dt_time b" "dt_date a - dt_date b"]
    by (simp add: days_between_def D_def [symmetric])
qed

lemma get_comparison_dates_result:
  fixes now1 now2 :: datetime and k :: int
  defines "base \<equiv> (if 0 < k then dt_date now1 - 30 * k else dt_date now1)"
  defines "y \<equiv> year_of base" and "m \<equiv> month_of base"
  defines "same \<equiv> (y = year_of (dt_date now2) \<and> m = month_of (dt_date now2))"
  defines "m1s \<equiv> ymd2ord y m 1"
  defines "m1e \<equiv> (if same then dt_date now2 else ymd2ord y m (days_in_month y m))"
  defines "dp \<equiv> m1e - m1s - (if same \<and> dt_time now2 < dt_time now1 then 1 else 0)"
  defines "m2s \<equiv> ymd2ord (prev_year y m) (prev_month m) 1"
  assumes now1: "valid_datetime now1" and now2: "valid_datetime now2"
    and order: "\<not> dt_less now2 now1" and base: "32 \<le> base"
  shows "get_comparison_dates now1 now2 k =
           Inr (m1s, m1e, m2s, min (m2s + dp) (m1s - 1), now1\<lparr>dt_date := base\<rparr>)
    \<and> 1 \<le> y \<and> y \<le> 9999 \<and> 1 \<le> m \<and> m \<le> 12 \<and> m1s \<le> base \<and> m1s \<le> m1e \<and> 0 \<le> dp
    \<and> 1 \<le> prev_year y m \<and> m1e \<le> ymd2ord y m (days_in_month y m)
    \<and> m1s - 1 = ymd2ord (prev_year y m) (prev_month m) (days_in_month (prev_year y m) (prev_month m))"
proof -
  define d1 t1 d2 t2 where "d1 = dt_date now1" and "t1 = dt_time now1"
    and "d2 = dt_date now2" and "t2 = dt_time now2"
  define bdt where "bdt = now1\<lparr>dt_date := base\<rparr>"
  from now1 have v1: "1 \<le> d1" "d1 \<le> 3652059" "0 \<le> t1" "t1 < DAY_US"
    by (simp_all add: valid_datetime_def valid_date_def MAXORDINAL_def d1_def t1_def)
  from now2 have v2: "1 \<le> d2" "d2 \<le> MAXORDINAL" "0 \<le> t2" "t2 < DAY_US"
    by (simp_all add: valid_datetime_def valid_date_def d2_def t2_def)
  from order have ord: "d1 < d2 \<or> d1 = d2 \<and> t1 \<le> t2"
    by (auto simp: dt_less_def d1_def d2_def t1_def t2_def)
  have bn: "base \<le> d1" by (simp add: base_def d1_def)
  with v1 base have b1: "1 \<le> base" and bmax: "base \<le> 3652059" by simp_all
  have bt: "dt_time bdt = t1" "dt_date bdt = base" by (simp_all add: bdt_def t1_def)
  have step1: "(if k > 0 then add_days now1 (- (30 * k)) else Inr now1) = Inr bdt"
    using b1 bmax unfolding base_def bdt_def
    by (cases "0 < k") (simp_all add: add_days_def valid_date_def MAXORDINAL_def)
  from year_of_bounds [OF b1] year_of_le_9999 [OF b1 bmax]
  have y: "1 \<le> y" "y \<le> 9999" by (simp_all add: y_def)
  from ymd_of_ordinal [OF b1]
  have m: "1 \<le> m" "m \<le> 12" and d: "1 \<le> day_of base" "day_of base \<le> days_in_month y m"
    and be: "ymd2ord y m (day_of base) = base"
    by (simp_all add: y_def m_def)
  have s1b: "m1s \<le> base" using d(1) be by (simp add: m1s_def ymd2ord_def)
  have m1s1: "1 \<le> m1s"
    using days_before_year_nonneg [OF y(1)] days_before_month_nonneg [OF m, of y]
    by (simp add: m1s_def ymd2ord_def)
  have step2: "replace_ymd bdt y m 1 = Inr (bdt\<lparr>dt_date := m1s\<rparr>)"
    using valid_ymd_first [OF y m] by (simp add: replace_ymd_def m1s_def)
  let ?last = "ymd2ord y m (days_in_month y m)"
  have lastmax: "?last \<le> MAXORDINAL" using y(2) m by (intro ymd2ord_le_max) simp_all
  have s1last: "m1s \<le> ?last" using days_in_month_pos [of y m] by (simp add: m1s_def ymd2ord_def)
  define m1e_dt where "m1e_dt = (if same then now2 else bdt\<lparr>dt_date := ?last\<rparr>)"
  have step3: "(if y = year_of (dt_date now2) \<and> m = month_of (dt_date now2) then Inr now2
      else and_then (if m = 12 then replace_ymd bdt (y + 1) 1 1 else replace_ymd bdt y (m + 1) 1)
             (\<lambda>next_month. add_days next_month (- 1))) = Inr m1e_dt"
  proof (cases same)
    case True
    then show ?thesis by (simp add: m1e_dt_def same_def)
  next
    case False
    have ny: "\<not> (y = 9999 \<and> m = 12)"
    proof
      assume ym: "y = 9999 \<and> m = 12"
      then have "?last = MAXORDINAL"
        by (simp add: ymd2ord_def days_before_year_def days_before_month_def days_in_month_def
            is_leap_def MAXORDINAL_def)
      with v2 have "d2 \<le> ?last" by simp
      moreover from s1b bn ord have "ymd2ord y m 1 \<le> d2" by (auto simp: m1s_def)
      ultimately have "year_of d2 = y \<and> month_of d2 = m"
        using within_month [OF y(1) m] by simp
      with False show False by (simp add: same_def d2_def)
    qed
    have nm: "(if m = 12 then replace_ymd bdt (y + 1) 1 1 else replace_ymd bdt y (m + 1) 1) =
        Inr (bdt\<lparr>dt_date := (if m = 12 then ymd2ord (y + 1) 1 1 else ymd2ord y (m + 1) 1)\<rparr>)"
    proof (cases "m = 12")
      case True
      with ny y have "valid_ymd (y + 1) 1 1" by (intro valid_ymd_first) simp_all
      with True show ?thesis by (simp add: replace_ymd_def)
    next
      case False
      with m y have "valid_ymd y (m + 1) 1" by (intro valid_ymd_first) simp_all
      with False show ?thesis by (simp add: replace_ymd_def)
    qed
    have "valid_date ?last" using lastmax s1last m1s1 by (simp add: valid_date_def)
    then have dl: "add_days (bdt\<lparr>dt_date := (if m = 12 then ymd2ord (y + 1) 1 1
          else ymd2ord y (m + 1) 1)\<rparr>) (- 1) = Inr (bdt\<lparr>dt_date := ?last\<rparr>)"
      using last_day_of_month [OF m, of y] by (simp add: add_days_def)
    from False have c: "(y = year_of (dt_date now2) \<and> m = month_of (dt_date now2)) \<longleftrightarrow> False"
      by (simp add: same_def)
    from False have e: "m1e_dt = bdt\<lparr>dt_date := ?last\<rparr>" by (simp add: m1e_dt_def)
    show ?thesis unfolding e by (simp only: c if_False nm and_then_Inr dl)
  qed
  have e_date: "dt_date m1e_dt = m1e"
    by (simp add: m1e_dt_def m1e_def)
  have e_time: "dt_time m1e_dt = (if same then t2 else t1)"
    by (simp add: m1e_dt_def t2_def bt)
  have s1e: "m1s \<le> m1e"
  proof (cases same)
    case True
    with s1b bn ord show ?thesis by (auto simp: m1e_def d2_def)
  next
    case False
    with s1last show ?thesis by (simp add: m1e_def)
  qed
  have e_last: "m1e \<le> ?last"
  proof (cases same)
    case True
    from ymd_of_ordinal [OF v2(1)] True have "ymd2ord y m (day_of d2) = d2"
      "day_of d2 \<le> days_in_month y m" by (simp_all add: same_def d2_def)
    then have "d2 \<le> ?last" by (simp add: ymd2ord_def)
    with True show ?thesis by (simp add: m1e_def d2_def)
  next
    case False
    then show ?thesis by (simp add: m1e_def)
  qed
  have dpv: "days_between m1e_dt (bdt\<lparr>dt_date := m1s\<rparr>) = dp"
  proof -
    have "0 \<le> dt_time m1e_dt" "dt_time m1e_dt < DAY_US"
      using v1 v2 by (simp_all add: e_time)
    moreover have "0 \<le> dt_time (bdt\<lparr>dt_date := m1s\<rparr>)" "dt_time (bdt\<lparr>dt_date := m1s\<rparr>) < DAY_US"
      using v1 by (simp_all add: bt)
    ultimately have "days_between m1e_dt (bdt\<lparr>dt_date := m1s\<rparr>) =
        dt_date m1e_dt - dt_date (bdt\<lparr>dt_date := m1s\<rparr>)
          - (if dt_time m1e_dt < dt_time (bdt\<lparr>dt_date := m1s\<rparr>) then 1 else 0)"
      by (rule days_between_eq)
    then show ?thesis
      by (simp add: e_date e_time bt dp_def t1_def [symmetric] t2_def [symmetric])
  qed
  have dp0: "0 \<le> dp"
  proof (cases "same \<and> t2 < t1")
    case True
    with ord have "d1 < d2" by auto
    with s1b bn True show ?thesis
      by (simp add: dp_def m1e_def d2_def [symmetric] t1_def [symmetric] t2_def [symmetric])
  next
    case False
    with s1e show ?thesis
      by (auto simp: dp_def t1_def [symmetric] t2_def [symmetric])
  qed
  have ym: "2 \<le> y \<or> 2 \<le> m"
  proof (rule ccontr)
    assume "\<not> (2 \<le> y \<or> 2 \<le> m)"
    with y m have "y = 1" "m = 1" by simp_all
    with be d(2) have "base \<le> 31"
      by (simp add: ymd2ord_def days_before_year_1 days_before_month_1 days_in_month_def)
    with base show False by simp
  qed
  have lm1: "1 \<le> m1s - 1"
  proof -
    from ym show ?thesis
    proof
      assume "2 \<le> y"
      then have "days_before_year 2 \<le> days_before_year y" by (rule days_before_year_mono)
      with days_before_month_nonneg [OF m, of y] show ?thesis
        by (simp add: m1s_def ymd2ord_def days_before_year_2)
    next
      assume "2 \<le> m"
      with m have "days_before_month y 2 \<le> days_before_month y m"
        by (intro days_before_month_mono) simp_all
      with days_before_year_nonneg [OF y(1)] show ?thesis
        by (simp add: m1s_def ymd2ord_def days_before_month_2)
    qed
  qed
  let ?py = "prev_year y m" and ?pm = "prev_month m"
  have py: "1 \<le> ?py" "?py \<le> 9999" using ym y m by (auto simp: prev_year_def)
  have pm: "1 \<le> ?pm" "?pm \<le> 12" using m by (auto simp: prev_month_def)
  have lmld: "m1s - 1 = ymd2ord ?py ?pm (days_in_month ?py ?pm)"
    unfolding m1s_def by (rule day_before_first [OF m])
  have step4: "add_days (bdt\<lparr>dt_date := m1s\<rparr>) (- 1) = Inr (bdt\<lparr>dt_date := m1s - 1\<rparr>)"
    using lm1 s1b bmax by (simp add: add_days_def valid_date_def MAXORDINAL_def)
  have "year_of (m1s - 1) = ?py \<and> month_of (m1s - 1) = ?pm"
    unfolding lmld using days_in_month_pos [of ?py ?pm]
    by (intro conjI; insert ordinal_of_ymd [OF py(1) pm, of "days_in_month ?py ?pm"]; simp)
  then have step5: "replace_ymd (bdt\<lparr>dt_date := m1s - 1\<rparr>)
      (year_of (dt_date (bdt\<lparr>dt_date := m1s - 1\<rparr>)))
      (month_of (dt_date (bdt\<lparr>dt_date := m1s - 1\<rparr>))) 1 = Inr (bdt\<lparr>dt_date := m2s\<rparr>)"
    using valid_ymd_first [OF py pm] by (simp add: replace_ymd_def m2s_def)
  have m2s1: "1 \<le> m2s"
    using days_before_year_nonneg [OF py(1)] days_before_month_nonneg [OF pm, of ?py]
    by (simp add: m2s_def ymd2ord_def)
  have step6: "dt_date (case add_days (bdt\<lparr>dt_date := m2s\<rparr>) dp of
        Inl e \<Rightarrow> bdt\<lparr>dt_date := m1s - 1\<rparr>
      | Inr month2_end \<Rightarrow>
          if dt_less (bdt\<lparr>dt_date := m1s - 1\<rparr>) month2_end then bdt\<lparr>dt_date := m1s - 1\<rparr>
          else month2_end)
      = min (m2s + dp) (m1s - 1)"
  proof (cases "valid_date (m2s + dp)")
    case True
    then show ?thesis by (simp add: add_days_def min_def dt_less_def)
  next
    case False
    with m2s1 dp0 have "MAXORDINAL < m2s + dp" by (simp add: valid_date_def)
    moreover from s1b bmax have "m1s - 1 \<le> MAXORDINAL" by (simp add: MAXORDINAL_def)
    ultimately show ?thesis using False by (simp add: add_days_def min_def)
  qed
  have "get_comparison_dates now1 now2 k =
      Inr (m1s, m1e, m2s, min (m2s + dp) (m1s - 1), bdt)"
    unfolding get_comparison_dates_def step1 and_then_Inr Let_def bt
      y_def [symmetric] m_def [symmetric] step2 step3 dpv step4 step5
    by (simp add: step6 e_date)
  with y m s1b s1e py(1) e_last lmld dp0 show ?thesis by (simp add: bdt_def)
qed

subsection \<open>Properties of the comparison windows\<close>

lemma ymd2ord_0001_02_01: "ymd2ord 1 2 1 = 32"
  by (simp add: ymd2ord_def days_before_year_def days_before_month_def)

text \<open>
  C8 (as amended).  For every pair of clock reads of which the second is not earlier than the
  first, and every offset \<open>k\<close> such that the base date (the date of the first read minus
  \<open>30 * k\<close> days for a positive \<open>k\<close>, that date otherwise) is a date on or after
  0001-02-01, \<open>get_comparison_dates\<close> returns without error, and both windows are valid:
  \<open>current.start \<le> current.end\<close> and \<open>prior.start \<le> prior.end\<close>.
\<close>

theorem get_comparison_dates_valid:
  assumes "valid_datetime now1" and "valid_datetime now2" and "\<not> dt_less now2 now1"
    and "ymd2ord 1 2 1 \<le> (if 0 < k then dt_date now1 - 30 * k else dt_date now1)"
  shows "\<exists>m1_start m1_end m2_start m2_end base_date.
           get_comparison_dates now1 now2 k =
             Inr (m1_start, m1_end, m2_start, m2_end, base_date) \<and>
           m1_start \<le> m1_end \<and> m2_start \<le> m2_end"
proof -
  define base where "base = (if 0 < k then dt_date now1 - 30 * k else dt_date now1)"
  define y m where "y = year_of base" and "m = month_of base"
  define same where "same = (y = year_of (dt_date now2) \<and> m = month_of (dt_date now2))"
  define m1s where "m1s = ymd2ord y m 1"
  define m1e where "m1e = (if same then dt_date now2 else ymd2ord y m (days_in_month y m))"
  define dp where "dp = m1e - m1s - (if same \<and> dt_time now2 < dt_time now1 then 1 else 0)"
  define m2s where "m2s = ymd2ord (prev_year y m) (prev_month m) 1"
  from assms(4) have b: "32 \<le> (if 0 < k then dt_date now1 - 30 * k else dt_date now1)"
    by (simp only: ymd2ord_0001_02_01)
  note r = get_comparison_dates_result [OF assms(1-3) b, folded base_def, folded y_def m_def,
      folded same_def, folded m1s_def, folded m1e_def, folded dp_def, folded m2s_def]
  from r have res: "get_comparison_dates now1 now2 k =
      Inr (m1s, m1e, m2s, min (m2s + dp) (m1s - 1), now1\<lparr>dt_date := base\<rparr>)"
    and s1e: "m1s \<le> m1e" and dp0: "0 \<le> dp"
    and lm: "m1s - 1 = ymd2ord (prev_year y m) (prev_month m)
        (days_in_month (prev_year y m) (prev_month m))" by simp_all
  from lm days_in_month_pos [of "prev_year y m" "prev_month m"] have "m2s \<le> m1s - 1"
    by (simp add: m2s_def ymd2ord_def)
  with dp0 have "m2s \<le> min (m2s + dp) (m1s - 1)" by simp
  with res s1e show ?thesis by blast
qed

theorem get_comparison_dates_valid_witness:
  "\<exists>m1_start m1_end m2_start m2_end base_date.
      get_comparison_dates \<lparr>dt_date = ymd2ord 2024 3 30, dt_time = 36000000000\<rparr>
        \<lparr>dt_date = ymd2ord 2024 3 30, dt_time = 36000000005\<rparr> 1 =
        Inr (m1_start, m1_end, m2_start, m2_end, base_date) \<and>
      m1_start \<le> m1_end \<and> m2_start \<le> m2_end"
proof -
  have d: "ymd2ord 2024 3 30 = 738975"
    by (simp add: ymd2ord_def days_before_year_def days_before_month_def is_leap_def)
  have a1: "valid_datetime \<lparr>dt_date = ymd2ord 2024 3 30, dt_time = 36000000000\<rparr>"
    by (simp add: d valid_datetime_def valid_date_def MAXORDINAL_def DAY_US_def)
  have a2: "valid_datetime \<lparr>dt_date = ymd2ord 2024 3 30, dt_time = 36000000005\<rparr>"
    by (simp add: d valid_datetime_def valid_date_def MAXORDINAL_def DAY_US_def)
  have o: "\<not> dt_less \<lparr>dt_date = ymd2ord 2024 3 30, dt_time = 36000000005\<rparr>
                     \<lparr>dt_date = ymd2ord 2024 3 30, dt_time = 36000000000\<rparr>"
    by (simp add: dt_less_def)
  have b: "ymd2ord 1 2 1 \<le> (if 0 < (1::int)
      then dt_date \<lparr>dt_date = ymd2ord 2024 3 30, dt_time = 36000000000\<rparr> - 30 * 1
      else dt_date \<lparr>dt_date = ymd2ord 2024 3 30, dt_time = 36000000000\<rparr>)"
    by (simp add: d ymd2ord_0001_02_01)
  from get_comparison_dates_valid [OF a1 a2 o b] show ?thesis .
qed

text \<open>
  C8 as the specification states it fails for a large offset: 25000 steps of 30 days before 2024-03-30 is
  before 0001-01-01, the first date of Python's \<open>datetime\<close>, and the subtraction raises
  \<open>OverflowError\<close>.
\<close>

theorem get_comparison_dates_overflow:
  "get_comparison_dates \<lparr>dt_date = ymd2ord 2024 3 30, dt_time = 36000000000\<rparr>
     \<lparr>dt_date = ymd2ord 2024 3 30, dt_time = 36000000005\<rparr> 25000 = Inl OverflowError"
  by (simp add: get_comparison_dates_def add_days_def valid_date_def ymd2ord_def
      days_before_year_def days_before_month_def is_leap_def)

text \<open>
  The error is the same for every offset that takes the base date before 0001-02-01: before
  0001-01-01 the subtraction of the offset raises, and in January of the year 1 the day before
  \<open>month1_start\<close> does not exist.
\<close>

lemma get_comparison_dates_raises:
  assumes now1: "valid_datetime now1" and now2: "valid_datetime now2"
    and base: "(if 0 < k then dt_date now1 - 30 * k else dt_date now1) < ymd2ord 1 2 1"
  shows "get_comparison_dates now1 now2 k = Inl OverflowError"
proof -
  define base where "base = (if 0 < k then dt_date now1 - 30 * k else dt_date now1)"
  from assms(3) have b31: "base \<le> 31" by (simp add: base_def ymd2ord_0001_02_01)
  from now1 have v1: "1 \<le> dt_date now1" "dt_date now1 \<le> MAXORDINAL"
    by (simp_all add: valid_datetime_def valid_date_def)
  show ?thesis
  proof (cases "1 \<le> base")
    case False
    with v1 have k: "0 < k" and inv: "\<not> valid_date (dt_date now1 + - (30 * k))"
      by (auto simp: base_def valid_date_def split: if_splits)
    then show ?thesis by (simp add: get_comparison_dates_def add_days_def)
  next
    case True
    define bdt where "bdt = now1\<lparr>dt_date := base\<rparr>"
    have bt: "dt_date bdt = base" by (simp add: bdt_def)
    have o1: "ymd2ord 1 1 1 = 1" "ymd2ord 1 1 (days_in_month 1 1) = 31"
      by (simp_all add: ymd2ord_def days_before_year_1 days_before_month_1 days_in_month_def)
    from True b31 have "ymd2ord 1 1 1 \<le> base" "base \<le> ymd2ord 1 1 (days_in_month 1 1)"
      by (simp_all add: o1)
    from within_month [OF _ _ _ this] have ym: "year_of base = 1" "month_of base = 1" by simp_all
    have step1: "(if k > 0 then add_days now1 (- (30 * k)) else Inr now1) = Inr bdt"
      using True b31 unfolding base_def bdt_def
      by (cases "0 < k") (simp_all add: add_days_def valid_date_def MAXORDINAL_def)
    have v111: "valid_ymd 1 1 1" "valid_ymd 1 2 1" by (rule valid_ymd_first; simp)+
    have step2: "replace_ymd bdt 1 1 1 = Inr (bdt\<lparr>dt_date := 1\<rparr>)"
      using v111 by (simp add: replace_ymd_def o1)
    have step3: "\<exists>e. (if 1 = year_of (dt_date now2) \<and> 1 = month_of (dt_date now2) then Inr now2
        else and_then (if (1::int) = 12 then replace_ymd bdt (1 + 1) 1 1
                       else replace_ymd bdt 1 (1 + 1) 1)
               (\<lambda>next_month. add_days next_month (- 1))) = Inr e"
      using v111 by (simp add: replace_ymd_def add_days_def valid_date_def
          ymd2ord_0001_02_01 MAXORDINAL_def)
    then obtain e where step3':
      "(if 1 = year_of (dt_date now2) \<and> 1 = month_of (dt_date now2) then Inr now2
        else and_then (if (1::int) = 12 then replace_ymd bdt (1 + 1) 1 1
                       else replace_ymd bdt 1 (1 + 1) 1)
               (\<lambda>next_month. add_days next_month (- 1))) = Inr e" ..
    have step4: "add_days (bdt\<lparr>dt_date := 1\<rparr>) (- 1) = Inl OverflowError"
      by (simp add: add_days_def valid_date_def)
    show ?thesis
      unfolding get_comparison_dates_def step1 and_then_Inr Let_def bt ym step2 step3' step4
      by simp
  qed
qed

text \<open>
  When the time of day of the second clock read is not before that of the first (as it is
  when both reads fall on the same day), either the current and the prior window span the
  same number of days, or \<open>prior.end\<close> is the last day of the prior calendar month (the day
  before \<open>current.start\<close>) and the symmetric end would lie beyond it.  The prior window
  starts on the first day of the month that ends the day before \<open>current.start\<close> and ends
  within that month.  On 2024-03-30 with offset 0 the prior window ends on 2024-02-29.
\<close>

lemma get_comparison_dates_same_time_symmetric_or_clamped:
  assumes "valid_datetime now1" and "valid_datetime now2" and "\<not> dt_less now2 now1"
    and "dt_time now1 \<le> dt_time now2"
    and "ymd2ord 1 2 1 \<le> (if 0 < k then dt_date now1 - 30 * k else dt_date now1)"
  shows "\<exists>m1_start m1_end m2_start m2_end base_date.
           get_comparison_dates now1 now2 k =
             Inr (m1_start, m1_end, m2_start, m2_end, base_date) \<and>
           (m1_end - m1_start = m2_end - m2_start \<or>
            m2_end = m1_start - 1 \<and> m1_start - 1 < m2_start + (m1_end - m1_start)) \<and>
           day_of m1_start = 1 \<and> day_of m2_start = 1 \<and>
           m1_start - m2_start = days_in_month (year_of m2_start) (month_of m2_start) \<and>
           m2_start \<le> m2_end \<and> m2_end < m1_start"
proof -
  define base where "base = (if 0 < k then dt_date now1 - 30 * k else dt_date now1)"
  define y m where "y = year_of base" and "m = month_of base"
  define same where "same = (y = year_of (dt_date now2) \<and> m = month_of (dt_date now2))"
  define m1s where "m1s = ymd2ord y m 1"
  define m1e where "m1e = (if same then dt_date now2 else ymd2ord y m (days_in_month y m))"
  define dp where "dp = m1e - m1s - (if same \<and> dt_time now2 < dt_time now1 then 1 else 0)"
  define m2s where "m2s = ymd2ord (prev_year y m) (prev_month m) 1"
  define m2e where "m2e = min (m2s + dp) (m1s - 1)"
  let ?py = "prev_year y m" and ?pm = "prev_month m"
  from assms(5) have b: "32 \<le> (if 0 < k then dt_date now1 - 30 * k else dt_date now1)"
    by (simp only: ymd2ord_0001_02_01)
  note r = get_comparison_dates_result [OF assms(1-3) b, folded base_def, folded y_def m_def,
      folded same_def, folded m1s_def, folded m1e_def, folded dp_def, folded m2s_def,
      folded m2e_def]
  from r have res: "get_comparison_dates now1 now2 k =
      Inr (m1s, m1e, m2s, m2e, now1\<lparr>dt_date := base\<rparr>)"
    and y: "1 \<le> y" and m: "1 \<le> m" "m \<le> 12" and py: "1 \<le> ?py"
    and s1e: "m1s \<le> m1e"
    and lm: "m1s - 1 = ymd2ord ?py ?pm (days_in_month ?py ?pm)" by simp_all
  from assms(4) have dp: "dp = m1e - m1s" by (simp add: dp_def)
  have pm: "1 \<le> ?pm" "?pm \<le> 12" using m by (auto simp: prev_month_def)
  have dim1: "1 \<le> days_in_month y m" "1 \<le> days_in_month ?py ?pm"
    using days_in_month_pos [of y m] days_in_month_pos [of ?py ?pm] by simp_all
  from ordinal_of_ymd [OF y m _ dim1(1)] have d1: "day_of m1s = 1" by (simp add: m1s_def)
  from ordinal_of_ymd [OF py pm _ dim1(2)] have d2: "day_of m2s = 1"
    and ym2: "year_of m2s = ?py" "month_of m2s = ?pm" by (simp_all add: m2s_def)
  from lm have len: "m1s - m2s = days_in_month ?py ?pm"
    by (simp add: m2s_def ymd2ord_def)
  with dim1(2) have lt: "m2s \<le> m1s - 1" by simp
  have shape: "m1e - m1s = m2e - m2s \<or> m2e = m1s - 1 \<and> m1s - 1 < m2s + (m1e - m1s)"
    by (simp add: m2e_def dp min_def)
  from lt s1e have le2: "m2s \<le> m2e" and lt2: "m2e < m1s" by (simp_all add: m2e_def dp)
  from res shape d1 d2 len ym2 le2 lt2 show ?thesis by simp
qed

lemma get_comparison_dates_2024_03_30:
  "get_comparison_dates \<lparr>dt_date = ymd2ord 2024 3 30, dt_time = 36000000000\<rparr>
     \<lparr>dt_date = ymd2ord 2024 3 30, dt_time = 36000000005\<rparr> 0 =
   Inr (ymd2ord 2024 3 1, ymd2ord 2024 3 30, ymd2ord 2024 2 1, ymd2ord 2024 2 29,
        \<lparr>dt_date = ymd2ord 2024 3 30, dt_time = 36000000000\<rparr>)"
  by code_simp

text \<open>
  C2.  The invariant fails when the two clock reads straddle midnight within a month.  With
  the first read at 2024-03-14 23:59:59.999999 and the second at 2024-03-15 00:00:00.000001
  (offset 0), \<open>month1_start\<close> carries the time of day of the first read and \<open>month1_end\<close>
  is the second read, so \<open>days_passed\<close> is 13 although the dates are 14 days apart: the
  function returns the windows 2024-03-01 .. 2024-03-15 and 2024-02-01 .. 2024-02-14.  The
  current window spans 14 days, the prior window 13, and \<open>prior.end\<close> is not the last day
  of February (2024-02-29).
\<close>

theorem get_comparison_dates_midnight_asymmetric:
  "get_comparison_dates \<lparr>dt_date = ymd2ord 2024 3 14, dt_time = 86399999999\<rparr>
     \<lparr>dt_date = ymd2ord 2024 3 15, dt_time = 1\<rparr> 0 =
     Inr (ymd2ord 2024 3 1, ymd2ord 2024 3 15, ymd2ord 2024 2 1, ymd2ord 2024 2 14,
          \<lparr>dt_date = ymd2ord 2024 3 14, dt_time = 86399999999\<rparr>) \<and>
   ymd2ord 2024 3 15 - ymd2ord 2024 3 1 = 14 \<and>
   ymd2ord 2024 2 14 - ymd2ord 2024 2 1 = 13 \<and>
   ymd2ord 2024 3 1 - 1 = ymd2ord 2024 2 29 \<and>
   ymd2ord 2024 2 14 \<noteq> ymd2ord 2024 2 29"
  by code_simp

section \<open>Daily trend\<close>

text \<open>
  \<open>strftime('%Y-%m-%d')\<close>: the year in four digits, month and day in two.  (For a year
  before 1000 the padding of \<open>%Y\<close> is the C library's; the model pads with zeros.)
\<close>

definition digit :: "int \<Rightarrow> char" where
  "digit k = ''0123456789'' ! nat k"

definition strftime_ymd :: "date \<Rightarrow> string" where
  "strftime_ymd d =
     (let y = year_of d; m = month_of d; dd = day_of d
      in [digit (y div 1000), digit (y div 100 mod 10), digit (y div 10 mod 10), digit (y mod 10)]
         @ ''-'' @ [digit (m div 10), digit (m mod 10)]
         @ ''-'' @ [digit (dd div 10), digit (dd mod 10)])"

text \<open>\<open>_chart_end_date\<close> returns its first argument.\<close>

definition chart_end_date :: "date \<Rightarrow> date" where
  "chart_end_date end_date_obj = end_date_obj"

text \<open>
  The date-range fill:
  \<^verbatim>\<open>
    sorted_daily = []
    curr = dt_start_ist.date()
    while curr <= chart_end:
        d_str = curr.strftime('%Y-%m-%d')
        sorted_daily.append({"Date": d_str, "Count": daily_counts.get(d_str, 0)})
        curr += timedelta(days=1)
  \<close>
  \<open>daily_counts\<close> is a dict from date string to count.  The step past 9999-12-31 raises
  \<open>OverflowError\<close>.
\<close>

definition trend_point :: "(string \<rightharpoonup> int) \<Rightarrow> date \<Rightarrow> row" where
  "trend_point daily_counts cur =
     (let d_str = strftime_ymd cur
      in [(''Date'', Str d_str),
          (''Count'', Num (case daily_counts d_str of None \<Rightarrow> 0 | Some c \<Rightarrow> c))])"

function fill_date_range :: "(string \<rightharpoonup> int) \<Rightarrow> date \<Rightarrow> date \<Rightarrow> row list \<Rightarrow> error + row list" where
  "fill_date_range daily_counts cur chart_end sorted_daily =
     (if cur \<le> chart_end
      then (case date_add cur 1 of
              Inl e \<Rightarrow> Inl e
            | Inr cur' \<Rightarrow>
                fill_date_range daily_counts cur' chart_end
                  (sorted_daily @ [trend_point daily_counts cur]))
      else Inr sorted_daily)"
  by pat_completeness auto
termination
  by (relation "measure (\<lambda>(daily_counts, cur, chart_end, sorted_daily). nat (chart_end - cur + 1))")
     (auto simp: date_add_def split: if_splits)

declare fill_date_range.simps [simp del]

lemma fill_date_range_upto:
  assumes "1 \<le> cur" "chart_end < MAXORDINAL"
  shows "fill_date_range daily_counts cur chart_end sorted_daily =
         Inr (sorted_daily @ map (trend_point daily_counts) [cur..chart_end])"
  using assms
proof (induction daily_counts cur chart_end sorted_daily rule: fill_date_range.induct)
  case (1 daily_counts cur chart_end sorted_daily)
  show ?case
  proof (cases "cur \<le> chart_end")
    case True
    with "1.prems" have step: "date_add cur 1 = Inr (cur + 1)"
      by (simp add: date_add_def valid_date_def)
    from "1.prems" have "1 \<le> cur + 1" by simp
    from "1.IH" [OF True step this "1.prems"(2)] True step show ?thesis
      by (subst fill_date_range.simps) (simp add: upto_rec1 [of cur chart_end])
  next
    case False
    then show ?thesis
      by (subst fill_date_range.simps) simp
  qed
qed

text \<open>
  C7.  For a window that starts on a date and ends before 9999-12-31, the fill produces
  exactly one trend point per calendar day from the start to the end inclusive, in ascending
  order of date, each with the count of the daily map for its date string, or 0 when the map
  has none.  For the window 2024-02-01 to 2024-02-03 and the map \<open>{"2024-02-02": 5}\<close> the
  output is the three points with counts 0, 5, 0.
\<close>

theorem fill_date_range_one_point_per_day:
  assumes "valid_date window_start" "window_end < MAXORDINAL"
  shows "fill_date_range daily_counts window_start (chart_end_date window_end) [] =
           Inr (map (\<lambda>d. [(''Date'', Str (strftime_ymd d)),
                            (''Count'', Num (case daily_counts (strftime_ymd d) of
                                               None \<Rightarrow> 0 | Some c \<Rightarrow> c))])
                  [window_start..window_end]) \<and>
         fill_date_range [''2024-02-02'' \<mapsto> 5] (ymd2ord 2024 2 1)
             (chart_end_date (ymd2ord 2024 2 3)) [] =
           Inr [[(''Date'', Str ''2024-02-01''), (''Count'', Num 0)],
                [(''Date'', Str ''2024-02-02''), (''Count'', Num 5)],
                [(''Date'', Str ''2024-02-03''), (''Count'', Num 0)]]"
proof -
  from assms(1) have s: "1 \<le> window_start" by (simp add: valid_date_def)
  have tp: "trend_point daily_counts = (\<lambda>d. [(''Date'', Str (strftime_ymd d)),
                            (''Count'', Num (case daily_counts (strftime_ymd d) of
                                               None \<Rightarrow> 0 | Some c \<Rightarrow> c))])"
    by (rule ext) (simp add: trend_point_def Let_def)
  have g: "fill_date_range daily_counts window_start (chart_end_date window_end) [] =
           Inr (map (\<lambda>d. [(''Date'', Str (strftime_ymd d)),
                            (''Count'', Num (case daily_counts (strftime_ymd d) of
                                               None \<Rightarrow> 0 | Some c \<Rightarrow> c))])
                  [window_start..window_end])"
    using fill_date_range_upto [OF s assms(2), of daily_counts "[]"]
    by (simp add: chart_end_date_def tp)
  have e: "fill_date_range [''2024-02-02'' \<mapsto> 5] (ymd2ord 2024 2 1)
             (chart_end_date (ymd2ord 2024 2 3)) [] =
           Inr [[(''Date'', Str ''2024-02-01''), (''Count'', Num 0)],
                [(''Date'', Str ''2024-02-02''), (''Count'', Num 5)],
                [(''Date'', Str ''2024-02-03''), (''Count'', Num 0)]]"
    by code_simp
  from g e show ?thesis by simp
qed

theorem fill_date_range_one_point_per_day_witness:
  "fill_date_range [''2024-02-02'' \<mapsto> 5] (ymd2ord 2024 2 1) (chart_end_date (ymd2ord 2024 2 3)) [] =
     Inr (map (\<lambda>d. [(''Date'', Str (strftime_ymd d)),
                      (''Count'', Num (case [''2024-02-02'' \<mapsto> 5] (strftime_ymd d) of
                                         None \<Rightarrow> 0 | Some c \<Rightarrow> c))])
            [ymd2ord 2024 2 1..ymd2ord 2024 2 3])"
proof -
  have a: "valid_date (ymd2ord 2024 2 1)"
    by (simp add: valid_date_def MAXORDINAL_def ymd2ord_def days_before_year_def
        days_before_month_def)
  have b: "ymd2ord 2024 2 3 < MAXORDINAL"
    by (simp add: MAXORDINAL_def ymd2ord_def days_before_year_def days_before_month_def)
  from fill_date_range_one_point_per_day [OF a b] show ?thesis by blast
qed

section \<open>HubSpot deals\<close>

definition EXCLUDED_OWNERS :: "string list" where
  "EXCLUDED_OWNERS = [''Mahalekshmi M J'', ''Sreeja Anoop'', ''arya.krishnan'', ''Devi Krishna'']"

text \<open>
  The properties of a deal that the fetch reads.  \<open>amount\<close> is the value that the summing
  loop adds: \<open>None\<close> when the property is absent, empty or not a number.  \<open>closedate\<close>
  is the close instant, \<open>None\<close> when the property is absent or does not parse.
\<close>

record deal =
  deal_id :: string
  hubspot_owner_id :: "string option"
  amount :: "real option"
  closedate :: "instant option"

text \<open>\<^verbatim>\<open>o_name = owner_map.get(o_id, "")\<close>, with \<open>o_id\<close> possibly \<open>None\<close>.\<close>

definition owner_name :: "(string \<rightharpoonup> string) \<Rightarrow> deal \<Rightarrow> string" where
  "owner_name owner_map r =
     (case hubspot_owner_id r of
        None \<Rightarrow> []
      | Some o_id \<Rightarrow> (case owner_map o_id of None \<Rightarrow> [] | Some o_name \<Rightarrow> o_name))"

text \<open>
  \<^verbatim>\<open>
  for r in results:
      o_id = r['properties'].get('hubspot_owner_id')
      o_name = owner_map.get(o_id, "")
      if o_name in EXCLUDED_OWNERS:
          continue
      all_results.append(r)
  \<close>
  A malformed element (no \<open>properties\<close> object, an owner id that is not a string) raises;
  the second component of the result tells whether that happened.
\<close>

fun keep_deals ::
  "(string \<rightharpoonup> string) \<Rightarrow> deal entry list \<Rightarrow> deal list \<Rightarrow> deal list \<times> bool" where
  "keep_deals owner_map [] all_results = (all_results, False)"
| "keep_deals owner_map (Malformed # results) all_results = (all_results, True)"
| "keep_deals owner_map (Entry r # results) all_results =
     (if owner_name owner_map r \<in> set EXCLUDED_OWNERS
      then keep_deals owner_map results all_results
      else keep_deals owner_map results (all_results @ [r]))"

text \<open>
  The \<open>while True\<close> loop of the search.  It has no bound of its own, so the model counts
  page requests: \<open>fuel\<close> is the number of requests allowed, and \<open>None\<close> means that the
  loop has not returned within them.  The source is asked with the cursor \<open>after\<close>
  (\<open>None\<close> for the first page); the result carries the cursors requested, in order.
  Every exception inside the body ends the loop (\<open>except Exception: break\<close>).
\<close>

fun hubspot_loop ::
  "nat \<Rightarrow> (string \<rightharpoonup> string) \<Rightarrow> (string option \<Rightarrow> deal response) \<Rightarrow> string option \<Rightarrow>
   deal list \<Rightarrow> string option list \<Rightarrow> (deal list \<times> string option list) option" where
  "hubspot_loop 0 owner_map src after all_results reqs = None"
| "hubspot_loop (Suc fuel) owner_map src after all_results reqs =
     (case src after of
        Raises \<Rightarrow> Some (all_results, reqs @ [after])
      | NotOk \<Rightarrow> Some (all_results, reqs @ [after])
      | Ok200 data \<Rightarrow>
          (case keep_deals owner_map (page_data data) all_results of
             (all_results', raised) \<Rightarrow>
               if raised then Some (all_results', reqs @ [after])
               else
                 (let after' = page_next data
                  in if \<not> truthy after' then Some (all_results', reqs @ [after])
                     else hubspot_loop fuel owner_map src after' all_results' (reqs @ [after]))))"

text \<open>
  \<^verbatim>\<open>
  total_val = 0
  for r in all_results:
      amt_str = r['properties'].get('amount')
      if amt_str:
          try: total_val += float(str(amt_str).replace(",", ""))
          except: pass
  \<close>
\<close>

fun sum_amounts :: "deal list \<Rightarrow> real \<Rightarrow> real" where
  "sum_amounts [] total_val = total_val"
| "sum_amounts (r # rs) total_val =
     (case amount r of
        None \<Rightarrow> sum_amounts rs total_val
      | Some a \<Rightarrow> sum_amounts rs (total_val + a))"

text \<open>
  \<^verbatim>\<open>daily_counts[date_str] = daily_counts.get(date_str, 0) + 1\<close> for every deal whose
  close date parses.
\<close>

definition bump :: "(string \<rightharpoonup> int) \<Rightarrow> string \<Rightarrow> (string \<rightharpoonup> int)" where
  "bump daily_counts date_str =
     daily_counts(date_str \<mapsto> (case daily_counts date_str of None \<Rightarrow> 0 | Some c \<Rightarrow> c) + 1)"

fun count_closedates :: "deal list \<Rightarrow> (string \<rightharpoonup> int) \<Rightarrow> (string \<rightharpoonup> int)" where
  "count_closedates [] daily_counts = daily_counts"
| "count_closedates (r # rs) daily_counts =
     (case closedate r of
        None \<Rightarrow> count_closedates rs daily_counts
      | Some close_dt \<Rightarrow>
          count_closedates rs (bump daily_counts (strftime_ymd (ist_date close_dt))))"

text \<open>
  \<open>get_hubspot_deals\<close> of the Flask application returns
  \<open>(count, total_revenue, daily_trend_list)\<close>; without a token it returns \<open>(0, 0, [])\<close>.
  \<open>owner_map\<close> is the result of \<open>fetch_hubspot_owners()\<close>.  The stage and close-date
  filters travel in the request body and are applied by the service.  The two
  \<open>localize\<close> calls stand before the loop, outside every \<open>try\<close>: their exception leaves
  the function.
\<close>

definition get_hubspot_deals ::
  "nat \<Rightarrow> string option \<Rightarrow> (string \<rightharpoonup> string) \<Rightarrow> (string option \<Rightarrow> deal response) \<Rightarrow>
   date \<Rightarrow> date \<Rightarrow> (error + int \<times> real \<times> row list) option" where
  "get_hubspot_deals fuel token owner_map src target_month_start target_month_end =
     (if \<not> truthy token then Some (Inr (0, 0, []))
      else
        (case start_of_day_ist target_month_start of
           Inl e \<Rightarrow> Some (Inl e)
         | Inr dt_start_ist \<Rightarrow>
        (case end_of_day_ist target_month_end of
           Inl e \<Rightarrow> Some (Inl e)
         | Inr dt_end_ist \<Rightarrow>
        (case hubspot_loop fuel owner_map src None [] [] of
           None \<Rightarrow> None
         | Some (all_results, reqs) \<Rightarrow>
             (let total_val = sum_amounts all_results 0;
                  daily_counts = count_closedates all_results Map.empty;
                  chart_end = chart_end_date (ist_date dt_end_ist)
              in Some (case fill_date_range daily_counts (ist_date dt_start_ist) chart_end [] of
                         Inl e \<Rightarrow> Inl e
                       | Inr sorted_daily \<Rightarrow>
                           Inr (int (length all_results), total_val, sorted_daily)))))))"

section \<open>Kajabi products\<close>

record product =
  title :: "string option"
  members_aggregate_count :: "int option"

record product_row =
  Name :: string
  Members :: int

definition product_entry :: "product \<Rightarrow> product_row" where
  "product_entry pr =
     \<lparr>Name = (case title pr of None \<Rightarrow> ''Unknown'' | Some t \<Rightarrow> t),
      Members = (case members_aggregate_count pr of None \<Rightarrow> 0 | Some n \<Rightarrow> n)\<rparr>"

text \<open>
  The \<open>for prod in data.get('data', [])\<close> loop; \<open>None\<close> when a malformed element raises.
\<close>

fun append_products :: "product entry list \<Rightarrow> product_row list \<Rightarrow> product_row list option" where
  "append_products [] all_products = Some all_products"
| "append_products (Malformed # ps) all_products = None"
| "append_products (Entry pr # ps) all_products =
     append_products ps (all_products @ [product_entry pr])"

text \<open>
  The \<open>while next_url\<close> loop of \<open>get_kajabi_products\<close> (Flask), with \<open>fuel\<close> as for
  the deals.  The \<open>try\<close> encloses the whole loop: an exception returns the empty list
  (\<open>except Exception: return []\<close>), a status other than 200 leaves the loop and returns
  \<open>all_products\<close>.
\<close>

fun products_loop ::
  "nat \<Rightarrow> (string \<Rightarrow> product response) \<Rightarrow> string option \<Rightarrow> product_row list \<Rightarrow> string list \<Rightarrow>
   (product_row list \<times> string list) option" where
  "products_loop 0 src next_url all_products reqs =
     (if truthy next_url then None else Some (all_products, reqs))"
| "products_loop (Suc fuel) src next_url all_products reqs =
     (if \<not> truthy next_url then Some (all_products, reqs)
      else
        (case src (the next_url) of
           Raises \<Rightarrow> Some ([], reqs @ [the next_url])
         | NotOk \<Rightarrow> Some (all_products, reqs @ [the next_url])
         | Ok200 data \<Rightarrow>
             (case append_products (page_data data) all_products of
                None \<Rightarrow> Some ([], reqs @ [the next_url])
              | Some all_products' \<Rightarrow>
                  products_loop fuel src (page_next data) all_products'
                    (reqs @ [the next_url]))))"

definition products_url :: string where
  "products_url = ''https://api.kajabi.com/v1/products?limit=100''"

definition get_kajabi_products ::
  "nat \<Rightarrow> string option \<Rightarrow> (string \<Rightarrow> product response) \<Rightarrow> product_row list option" where
  "get_kajabi_products fuel token src =
     (if \<not> truthy token then Some []
      else map_option fst (products_loop fuel src (Some products_url) [] []))"

section \<open>Kajabi new customers: the whole fetch\<close>

definition customers_url :: string where
  "customers_url = ''https://api.kajabi.com/v1/customers?limit=100&include=offers''"

fun count_created :: "customer list \<Rightarrow> (string \<rightharpoonup> int) \<Rightarrow> (string \<rightharpoonup> int)" where
  "count_created [] daily_counts = daily_counts"
| "count_created (c # cs) daily_counts =
     (case created_at c of
        None \<Rightarrow> count_created cs daily_counts
      | Some c_date \<Rightarrow> count_created cs (bump daily_counts (strftime_ymd (ist_date c_date))))"

text \<open>
  \<open>get_kajabi_new_customers\<close> returns
  \<open>(count, customer_list, total_global_count, daily_trend_list)\<close>; without a token it returns
  \<open>(0, [], 0, [])\<close>.  The two \<open>localize\<close> calls stand before the loop, outside every
  \<open>try\<close>.
\<close>

definition get_kajabi_new_customers ::
  "string option \<Rightarrow> (string \<Rightarrow> customer response) \<Rightarrow> date \<Rightarrow> date \<Rightarrow>
   error + int \<times> customer list \<times> int \<times> row list" where
  "get_kajabi_new_customers token src target_month_start target_month_end =
     (if \<not> truthy token then Inr (0, [], 0, [])
      else
        and_then (start_of_day_ist target_month_start) (\<lambda>dt_start_ist.
        and_then (end_of_day_ist target_month_end) (\<lambda>dt_end_ist.
        (case customers_loop src dt_start_ist dt_end_ist (Some customers_url) 0 [] 0 [] of
           (all_customers, total_global, reqs) \<Rightarrow>
             (let daily_counts = count_created all_customers Map.empty;
                  chart_end = chart_end_date (ist_date dt_end_ist)
              in and_then (fill_date_range daily_counts (ist_date dt_start_ist) chart_end [])
                   (\<lambda>sorted_daily.
                      Inr (int (length all_customers), all_customers, total_global,
                           sorted_daily)))))))"

text \<open>
  The same function up to the end of its loop: the customers collected, the global total
  and the page requests issued.
\<close>

definition get_kajabi_new_customers_run ::
  "string option \<Rightarrow> (string \<Rightarrow> customer response) \<Rightarrow> date \<Rightarrow> date \<Rightarrow>
   error + customer list \<times> int \<times> string list" where
  "get_kajabi_new_customers_run token src target_month_start target_month_end =
     (if \<not> truthy token then Inr ([], 0, [])
      else
        and_then (start_of_day_ist target_month_start) (\<lambda>dt_start_ist.
        and_then (end_of_day_ist target_month_end) (\<lambda>dt_end_ist.
        Inr (customers_loop src dt_start_ist dt_end_ist (Some customers_url) 0 [] 0 []))))"

declare customers_loop.simps [simp del] sales_loop.simps [simp del] active_loop.simps [simp del]

section \<open>Properties of the paginated fetches\<close>

definition in_window :: "instant \<Rightarrow> instant \<Rightarrow> instant option \<Rightarrow> bool" where
  "in_window dt_start dt_end t = (case t of None \<Rightarrow> False | Some x \<Rightarrow> dt_start \<le> x \<and> x \<le> dt_end)"

definition older :: "instant \<Rightarrow> instant option \<Rightarrow> bool" where
  "older dt_start t = (case t of None \<Rightarrow> False | Some x \<Rightarrow> x < dt_start)"

definition at_or_after :: "instant \<Rightarrow> instant option \<Rightarrow> bool" where
  "at_or_after dt_limit t = (case t of None \<Rightarrow> False | Some x \<Rightarrow> dt_limit \<le> x)"

text \<open>
  The records of a page that the loop over the page reads: those before the first malformed
  element.  A request that fails, or that is answered with another status, yields no record.
\<close>

fun readable :: "'r entry list \<Rightarrow> 'r list" where
  "readable [] = []"
| "readable (Malformed # es) = []"
| "readable (Entry r # es) = r # readable es"

definition page_records :: "('k \<Rightarrow> 'r response) \<Rightarrow> 'k \<Rightarrow> 'r list" where
  "page_records src u = (case src u of Ok200 data \<Rightarrow> readable (page_data data) | _ \<Rightarrow> [])"

text \<open>
  The request \<open>u\<close> is answered with a page after which the loop goes on
  (\<open>continues\<close> holds of the page), and \<open>next_of src u\<close> is the cursor of that page.
\<close>

definition advances :: "('k \<Rightarrow> 'r response) \<Rightarrow> ('r page \<Rightarrow> bool) \<Rightarrow> 'k \<Rightarrow> bool" where
  "advances src continues u = (case src u of Ok200 data \<Rightarrow> continues data | _ \<Rightarrow> False)"

definition next_of :: "('k \<Rightarrow> 'r response) \<Rightarrow> 'k \<Rightarrow> string option" where
  "next_of src u = (case src u of Ok200 data \<Rightarrow> page_next data | _ \<Rightarrow> None)"

text \<open>
  A list of requests is a chain when every request that is followed by another one was
  answered with a page after which the loop goes on, and the request after it is the one
  that this page names (\<open>link\<close> turns the cursor into the request).
\<close>

fun request_chain ::
  "('k \<Rightarrow> 'r response) \<Rightarrow> ('r page \<Rightarrow> bool) \<Rightarrow> (string option \<Rightarrow> 'k) \<Rightarrow> 'k list \<Rightarrow> bool" where
  "request_chain src continues link (u # v # us) =
     (advances src continues u \<and> link (next_of src u) = v \<and> request_chain src continues link (v # us))"
| "request_chain src continues link us = True"

text \<open>
  After which pages the windowed loops go on: the page is not empty, all its elements can be
  read, none of its records has a recency older than the window start, and it names a next
  page.
\<close>

definition customers_continue :: "instant \<Rightarrow> customer page \<Rightarrow> bool" where
  "customers_continue dt_start data =
     (page_data data \<noteq> [] \<and> Malformed \<notin> set (page_data data) \<and>
      \<not> list_ex (\<lambda>c. older dt_start (updated_at c)) (readable (page_data data)) \<and>
      truthy (page_next data))"

definition purchases_continue :: "instant \<Rightarrow> purchase page \<Rightarrow> bool" where
  "purchases_continue dt_start data =
     (page_data data \<noteq> [] \<and> Malformed \<notin> set (page_data data) \<and>
      \<not> list_ex (\<lambda>p. older dt_start (p_created_at p)) (readable (page_data data)) \<and>
      truthy (page_next data))"

text \<open>
  What a run of a windowed loop requests, from the state \<open>next_url\<close>, \<open>page_count\<close>:
  nothing when the loop condition fails; otherwise \<open>next_url\<close>, at most
  \<open>50 - page_count\<close> requests in all, each request but the last answered with a page after
  which the loop goes on and that names the request after it, and the last request either
  the one that reaches the bound or one after which the loop does not go on.
\<close>

definition windowed_trace ::
  "(string \<Rightarrow> 'r response) \<Rightarrow> ('r page \<Rightarrow> bool) \<Rightarrow> string option \<Rightarrow> nat \<Rightarrow> string list \<Rightarrow> bool" where
  "windowed_trace src continues next_url page_count us =
     (if \<not> (truthy next_url \<and> page_count < 50) then us = []
      else us \<noteq> [] \<and> hd us = the next_url \<and> length us \<le> 50 - page_count \<and>
           request_chain src continues the us \<and>
           (length us = 50 - page_count \<or> \<not> advances src continues (last us)))"

subsection \<open>The loop over one page\<close>

lemma classify_customers_eq:
  "classify_customers s e batch acc stop =
     (acc @ filter (\<lambda>c. in_window s e (created_at c)) (readable batch),
      stop \<or> list_ex (\<lambda>c. older s (updated_at c)) (readable batch),
      Malformed \<in> set batch)"
proof (induction batch arbitrary: acc stop)
  case Nil
  show ?case by simp
next
  case (Cons a batch)
  then show ?case
    by (cases a) (auto simp: in_window_def older_def Let_def split: option.splits)
qed

lemma classify_purchases_eq:
  "classify_purchases s e batch revenue filtered stop =
     (revenue + sum_list (map (\<lambda>p. the (amount_in_cents p) / 100)
                  (filter (\<lambda>p. in_window s e (p_created_at p) \<and> amount_in_cents p \<noteq> None)
                     (readable batch))),
      filtered @ filter (\<lambda>p. in_window s e (p_created_at p) \<and> amount_in_cents p \<noteq> None)
                   (readable batch),
      stop \<or> list_ex (\<lambda>p. older s (p_created_at p)) (readable batch),
      Malformed \<in> set batch)"
proof (induction batch arbitrary: revenue filtered stop)
  case Nil
  show ?case by simp
next
  case (Cons a batch)
  then show ?case
    by (cases a) (auto simp: in_window_def older_def split: option.splits)
qed

lemma classify_active_eq:
  "classify_active l batch active_count stop =
     (active_count + int (length (filter (\<lambda>c. at_or_after l (last_request_at c)) (readable batch))),
      stop \<or> list_ex (\<lambda>c. older l (updated_at c)) (readable batch),
      Malformed \<in> set batch)"
proof (induction batch arbitrary: active_count stop)
  case Nil
  show ?case by simp
next
  case (Cons a batch)
  then show ?case
    by (cases a) (auto simp: at_or_after_def older_def Let_def split: option.splits)
qed

subsection \<open>The requests of a windowed loop\<close>

function walk ::
  "(string \<Rightarrow> 'r response) \<Rightarrow> ('r page \<Rightarrow> bool) \<Rightarrow> string option \<Rightarrow> nat \<Rightarrow> string list" where
  "walk src continues next_url page_count =
     (if \<not> (truthy next_url \<and> page_count < 50) then []
      else if advances src continues (the next_url)
      then the next_url # walk src continues (next_of src (the next_url)) (page_count + 1)
      else [the next_url])"
  by pat_completeness auto
termination
  by (relation "measure (\<lambda>(src, continues, next_url, page_count). 50 - page_count)") auto

declare walk.simps [simp del]

lemma walk_Nil: "walk src continues next_url page_count = [] \<longleftrightarrow> \<not> (truthy next_url \<and> page_count < 50)"
  by (subst walk.simps) simp

lemma walk_hd:
  "truthy next_url \<Longrightarrow> page_count < 50 \<Longrightarrow> hd (walk src continues next_url page_count) = the next_url"
  by (subst walk.simps) simp

lemma walk_length: "length (walk src continues next_url page_count) \<le> 50 - page_count"
proof (induction src continues next_url page_count rule: walk.induct)
  case (1 src continues next_url page_count)
  show ?case
  proof (cases "truthy next_url \<and> page_count < 50")
    case False
    then show ?thesis by (subst walk.simps) simp
  next
    case True
    show ?thesis
    proof (cases "advances src continues (the next_url)")
      case False
      with True show ?thesis by (subst walk.simps) auto
    next
      case adv: True
      have n: "\<not> \<not> (truthy next_url \<and> page_count < 50)" using True by simp
      from "1.IH" [OF n adv] True adv show ?thesis by (subst walk.simps) auto
    qed
  qed
qed

lemma walk_chain: "request_chain src continues the (walk src continues next_url page_count)"
proof (induction src continues next_url page_count rule: walk.induct)
  case (1 src continues next_url page_count)
  show ?case
  proof (cases "truthy next_url \<and> page_count < 50")
    case False
    then show ?thesis by (subst walk.simps) simp
  next
    case True
    show ?thesis
    proof (cases "advances src continues (the next_url)")
      case False
      with True show ?thesis by (subst walk.simps) simp
    next
      case adv: True
      have n: "\<not> \<not> (truthy next_url \<and> page_count < 50)" using True by simp
      let ?w = "walk src continues (next_of src (the next_url)) (page_count + 1)"
      have w: "walk src continues next_url page_count = the next_url # ?w"
        using True adv by (subst walk.simps) simp
      show ?thesis
      proof (cases ?w)
        case Nil
        with w show ?thesis by simp
      next
        case (Cons v vs)
        then have "?w \<noteq> []" by simp
        then have "truthy (next_of src (the next_url))" "page_count + 1 < 50"
          by (simp_all add: walk_Nil)
        from walk_hd [OF this, of src continues] Cons have "the (next_of src (the next_url)) = v"
          by simp
        with "1.IH" [OF n adv] adv Cons w show ?thesis by simp
      qed
    qed
  qed
qed

lemma walk_last:
  assumes "\<And>data. continues data \<Longrightarrow> truthy (page_next data)"
    and "truthy next_url" "page_count < 50"
  shows "length (walk src continues next_url page_count) = 50 - page_count \<or>
         \<not> advances src continues (last (walk src continues next_url page_count))"
  using assms
proof (induction src continues next_url page_count rule: walk.induct)
  case (1 src continues next_url page_count)
  from "1.prems" have n: "\<not> \<not> (truthy next_url \<and> page_count < 50)" by simp
  note tr = "1.prems"(1)
  show ?case
  proof (cases "advances src continues (the next_url)")
    case False
    with "1.prems"(2,3) show ?thesis by (subst (1 2) walk.simps) simp
  next
    case adv: True
    let ?w = "walk src continues (next_of src (the next_url)) (page_count + 1)"
    have w: "walk src continues next_url page_count = the next_url # ?w"
      using "1.prems"(2,3) adv by (subst walk.simps) simp
    from adv obtain data where d: "src (the next_url) = Ok200 data" "continues data"
      by (auto simp: advances_def split: response.splits)
    show ?thesis
    proof (cases "truthy (next_of src (the next_url)) \<and> page_count + 1 < 50")
      case True
      then have ne: "?w \<noteq> []" by (simp add: walk_Nil)
      from "1.IH" [OF n adv tr] True
      have "length ?w = 50 - (page_count + 1) \<or> \<not> advances src continues (last ?w)" by simp
      with ne "1.prems"(3) show ?thesis unfolding w by auto
    next
      case False
      then have e: "?w = []" by (simp add: walk_Nil)
      show ?thesis
      proof (cases "page_count + 1 < 50")
        case True
        with False have "\<not> truthy (next_of src (the next_url))" by simp
        with d tr [of data] show ?thesis by (simp add: next_of_def)
      next
        case False
        with "1.prems"(3) have "page_count = 49" by simp
        then show ?thesis unfolding w e by simp
      qed
    qed
  qed
qed

lemma walk_trace:
  assumes "\<And>data. continues data \<Longrightarrow> truthy (page_next data)"
  shows "windowed_trace src continues next_url page_count
           (walk src continues next_url page_count)"
proof (cases "truthy next_url \<and> page_count < 50")
  case False
  then show ?thesis by (simp add: windowed_trace_def walk_Nil)
next
  case True
  then have t: "truthy next_url" "page_count < 50" by simp_all
  from walk_last [OF assms t, where src = src] walk_hd [OF t, of src continues]
    walk_length [of src continues next_url page_count]
    walk_chain [of src continues next_url page_count]
    walk_Nil [of src continues next_url page_count] True
  show ?thesis by (simp add: windowed_trace_def)
qed

subsection \<open>The windowed loops\<close>

text \<open>
  \<open>total_global\<close> after the loop: the total of the first page when the loop starts with
  \<open>page_count = 0\<close> and the first request is answered with a page.
\<close>

definition first_total :: "(string \<Rightarrow> 'r response) \<Rightarrow> string option \<Rightarrow> nat \<Rightarrow> int \<Rightarrow> int" where
  "first_total src next_url page_count total_global =
     (if truthy next_url \<and> page_count = 0
      then (case src (the next_url) of Ok200 data \<Rightarrow> page_total data | _ \<Rightarrow> total_global)
      else total_global)"

lemma customers_continue_truthy: "customers_continue s data \<Longrightarrow> truthy (page_next data)"
  by (simp add: customers_continue_def)

lemma purchases_continue_truthy: "purchases_continue s data \<Longrightarrow> truthy (page_next data)"
  by (simp add: purchases_continue_def)

lemma walk_single:
  "truthy next_url \<Longrightarrow> page_count < 50 \<Longrightarrow> \<not> advances src continues (the next_url) \<Longrightarrow>
   walk src continues next_url page_count = [the next_url]"
  by (subst walk.simps) simp

lemma walk_step:
  "truthy next_url \<Longrightarrow> page_count < 50 \<Longrightarrow> advances src continues (the next_url) \<Longrightarrow>
   walk src continues next_url page_count =
     the next_url # walk src continues (next_of src (the next_url)) (page_count + 1)"
  by (subst walk.simps) simp

lemma customers_loop_walk:
  "customers_loop src s e next_url page_count acc total_global reqs =
     (acc @ filter (\<lambda>c. in_window s e (created_at c))
              (concat (map (page_records src) (walk src (customers_continue s) next_url page_count))),
      first_total src next_url page_count total_global,
      reqs @ walk src (customers_continue s) next_url page_count)"
proof (induction src s e next_url page_count acc total_global reqs rule: customers_loop.induct)
  case (1 src s e next_url page_count acc total_global reqs)
  let ?u = "the next_url"
  show ?case
  proof (cases "truthy next_url \<and> page_count < 50")
    case False
    then have w: "walk src (customers_continue s) next_url page_count = []"
      by (simp add: walk_Nil)
    from False show ?thesis
      by (subst customers_loop.simps) (auto simp: w first_total_def)
  next
    case True
    then have t: "truthy next_url" "page_count < 50" by simp_all
    have n: "\<not> \<not> (truthy next_url \<and> page_count < 50)" using True by simp
    show ?thesis
    proof (cases "src ?u")
      case Raises
      then have "\<not> advances src (customers_continue s) ?u" by (simp add: advances_def)
      from walk_single [OF t this] Raises t show ?thesis
        by (subst customers_loop.simps) (simp add: page_records_def first_total_def)
    next
      case NotOk
      then have "\<not> advances src (customers_continue s) ?u" by (simp add: advances_def)
      from walk_single [OF t this] NotOk t show ?thesis
        by (subst customers_loop.simps) (simp add: page_records_def first_total_def)
    next
      case (Ok200 data)
      let ?tg = "if page_count = 0 then page_total data else total_global"
      let ?acc = "acc @ filter (\<lambda>c. in_window s e (created_at c)) (readable (page_data data))"
      have pr: "page_records src ?u = readable (page_data data)"
        using Ok200 by (simp add: page_records_def)
      have ft: "first_total src next_url page_count total_global = ?tg"
        using Ok200 t by (simp add: first_total_def)
      have adv: "advances src (customers_continue s) ?u = customers_continue s data"
        using Ok200 by (simp add: advances_def)
      show ?thesis
      proof (cases "page_data data \<noteq> [] \<and> Malformed \<notin> set (page_data data) \<and>
          \<not> list_ex (\<lambda>c. older s (updated_at c)) (readable (page_data data))")
        case False
        then have "\<not> advances src (customers_continue s) ?u"
          by (auto simp: adv customers_continue_def)
        from walk_single [OF t this] False Ok200 t show ?thesis
          by (subst customers_loop.simps)
             (auto simp: pr ft classify_customers_eq Let_def)
      next
        case good: True
        then have ne: "page_data data \<noteq> []" by simp
        have cl: "classify_customers s e (page_data data) acc False = (?acc, False, False)"
          using good by (simp add: classify_customers_eq)
        have step: "customers_loop src s e next_url page_count acc total_global reqs =
            customers_loop src s e (page_next data) (page_count + 1) ?acc ?tg (reqs @ [?u])"
          using t Ok200 ne by (subst customers_loop.simps) (simp add: cl Let_def)
        from "1.IH" [OF n Ok200 refl refl ne cl [symmetric] refl]
        have ih: "customers_loop src s e (page_next data) (page_count + 1) ?acc ?tg (reqs @ [?u]) =
            (?acc @ filter (\<lambda>c. in_window s e (created_at c))
                (concat (map (page_records src)
                   (walk src (customers_continue s) (page_next data) (page_count + 1)))),
             first_total src (page_next data) (page_count + 1) ?tg,
             (reqs @ [?u]) @ walk src (customers_continue s) (page_next data) (page_count + 1))"
          by simp
        have ft': "first_total src (page_next data) (page_count + 1) ?tg = ?tg"
          by (simp add: first_total_def)
        have nx: "next_of src ?u = page_next data" using Ok200 by (simp add: next_of_def)
        show ?thesis
        proof (cases "truthy (page_next data)")
          case True
          with good have "advances src (customers_continue s) ?u"
            by (simp add: adv customers_continue_def)
          from walk_step [OF t this] show ?thesis
            unfolding step ih ft ft' nx by (simp add: pr)
        next
          case False
          then have "\<not> advances src (customers_continue s) ?u"
            by (simp add: adv customers_continue_def)
          from walk_single [OF t this]
          have w1: "walk src (customers_continue s) next_url page_count = [?u]" .
          from False
          have w0: "walk src (customers_continue s) (page_next data) (page_count + 1) = []"
            by (simp add: walk_Nil)
          show ?thesis
            unfolding step ih ft ft' w0 w1 by (simp add: pr)
        qed
      qed
    qed
  qed
qed

lemma sales_loop_walk:
  "sales_loop src s e next_url page_count revenue filtered reqs =
     (revenue + sum_list (map (\<lambda>p. the (amount_in_cents p) / 100)
        (filter (\<lambda>p. in_window s e (p_created_at p) \<and> amount_in_cents p \<noteq> None)
           (concat (map (page_records src) (walk src (purchases_continue s) next_url page_count))))),
      filtered @ filter (\<lambda>p. in_window s e (p_created_at p) \<and> amount_in_cents p \<noteq> None)
        (concat (map (page_records src) (walk src (purchases_continue s) next_url page_count))),
      reqs @ walk src (purchases_continue s) next_url page_count)"
proof (induction src s e next_url page_count revenue filtered reqs rule: sales_loop.induct)
  case (1 src s e next_url page_count revenue filtered reqs)
  let ?u = "the next_url"
  let ?keep = "\<lambda>p. in_window s e (p_created_at p) \<and> amount_in_cents p \<noteq> None"
  show ?case
  proof (cases "truthy next_url \<and> page_count < 50")
    case False
    then have w: "walk src (purchases_continue s) next_url page_count = []"
      by (simp add: walk_Nil)
    from False show ?thesis
      by (subst sales_loop.simps) (auto simp: w)
  next
    case True
    then have t: "truthy next_url" "page_count < 50" by simp_all
    have n: "\<not> \<not> (truthy next_url \<and> page_count < 50)" using True by simp
    show ?thesis
    proof (cases "src ?u")
      case Raises
      then have "\<not> advances src (purchases_continue s) ?u" by (simp add: advances_def)
      from walk_single [OF t this] Raises t show ?thesis
        by (subst sales_loop.simps) (simp add: page_records_def)
    next
      case NotOk
      then have "\<not> advances src (purchases_continue s) ?u" by (simp add: advances_def)
      from walk_single [OF t this] NotOk t show ?thesis
        by (subst sales_loop.simps) (simp add: page_records_def)
    next
      case (Ok200 data)
      let ?rev = "revenue + sum_list (map (\<lambda>p. the (amount_in_cents p) / 100)
          (filter ?keep (readable (page_data data))))"
      let ?flt = "filtered @ filter ?keep (readable (page_data data))"
      have pr: "page_records src ?u = readable (page_data data)"
        using Ok200 by (simp add: page_records_def)
      have adv: "advances src (purchases_continue s) ?u = purchases_continue s data"
        using Ok200 by (simp add: advances_def)
      show ?thesis
      proof (cases "page_data data \<noteq> [] \<and> Malformed \<notin> set (page_data data) \<and>
          \<not> list_ex (\<lambda>p. older s (p_created_at p)) (readable (page_data data))")
        case False
        then have "\<not> advances src (purchases_continue s) ?u"
          by (auto simp: adv purchases_continue_def)
        from walk_single [OF t this] False Ok200 t show ?thesis
          by (subst sales_loop.simps)
             (auto simp: pr classify_purchases_eq Let_def)
      next
        case good: True
        then have ne: "page_data data \<noteq> []" by simp
        have cl: "classify_purchases s e (page_data data) revenue filtered False =
            (?rev, ?flt, False, False)"
          using good by (simp add: classify_purchases_eq)
        have step: "sales_loop src s e next_url page_count revenue filtered reqs =
            sales_loop src s e (page_next data) (page_count + 1) ?rev ?flt (reqs @ [?u])"
          using t Ok200 ne by (subst sales_loop.simps) (simp add: cl Let_def)
        from "1.IH" [OF n Ok200 refl ne cl [symmetric] refl refl]
        have ih: "sales_loop src s e (page_next data) (page_count + 1) ?rev ?flt (reqs @ [?u]) =
            (?rev + sum_list (map (\<lambda>p. the (amount_in_cents p) / 100)
                (filter ?keep (concat (map (page_records src)
                   (walk src (purchases_continue s) (page_next data) (page_count + 1)))))),
             ?flt @ filter ?keep (concat (map (page_records src)
                   (walk src (purchases_continue s) (page_next data) (page_count + 1)))),
             (reqs @ [?u]) @ walk src (purchases_continue s) (page_next data) (page_count + 1))"
          by simp
        have nx: "next_of src ?u = page_next data" using Ok200 by (simp add: next_of_def)
        show ?thesis
        proof (cases "truthy (page_next data)")
          case True
          with good have "advances src (purchases_continue s) ?u"
            by (simp add: adv purchases_continue_def)
          from walk_step [OF t this] show ?thesis
            unfolding step ih nx by (simp add: pr)
        next
          case False
          then have "\<not> advances src (purchases_continue s) ?u"
            by (simp add: adv purchases_continue_def)
          from walk_single [OF t this]
          have w1: "walk src (purchases_continue s) next_url page_count = [?u]" .
          from False
          have w0: "walk src (purchases_continue s) (page_next data) (page_count + 1) = []"
            by (simp add: walk_Nil)
          show ?thesis
            unfolding step ih w0 w1 by (simp add: pr)
        qed
      qed
    qed
  qed
qed

lemma active_loop_walk:
  "active_loop src l next_url page active_count total_customers reqs =
     (active_count + int (length (filter (\<lambda>c. at_or_after l (last_request_at c))
        (concat (map (page_records src) (walk src (customers_continue l) next_url page))))),
      first_total src next_url page total_customers,
      reqs @ walk src (customers_continue l) next_url page)"
proof (induction src l next_url page active_count total_customers reqs rule: active_loop.induct)
  case (1 src l next_url page active_count total_customers reqs)
  let ?u = "the next_url"
  let ?act = "\<lambda>c. at_or_after l (last_request_at c)"
  show ?case
  proof (cases "truthy next_url \<and> page < 50")
    case False
    then have w: "walk src (customers_continue l) next_url page = []"
      by (simp add: walk_Nil)
    from False show ?thesis
      by (subst active_loop.simps) (auto simp: w first_total_def)
  next
    case True
    then have t: "truthy next_url" "page < 50" by simp_all
    have n: "\<not> \<not> (truthy next_url \<and> page < 50)" using True by simp
    show ?thesis
    proof (cases "src ?u")
      case Raises
      then have "\<not> advances src (customers_continue l) ?u" by (simp add: advances_def)
      from walk_single [OF t this] Raises t show ?thesis
        by (subst active_loop.simps) (simp add: page_records_def first_total_def)
    next
      case NotOk
      then have "\<not> advances src (customers_continue l) ?u" by (simp add: advances_def)
      from walk_single [OF t this] NotOk t show ?thesis
        by (subst active_loop.simps) (simp add: page_records_def first_total_def)
    next
      case (Ok200 data)
      let ?tc = "if page = 0 then page_total data else total_customers"
      let ?cnt = "active_count + int (length (filter ?act (readable (page_data data))))"
      have pr: "page_records src ?u = readable (page_data data)"
        using Ok200 by (simp add: page_records_def)
      have ft: "first_total src next_url page total_customers = ?tc"
        using Ok200 t by (simp add: first_total_def)
      have adv: "advances src (customers_continue l) ?u = customers_continue l data"
        using Ok200 by (simp add: advances_def)
      show ?thesis
      proof (cases "page_data data \<noteq> [] \<and> Malformed \<notin> set (page_data data) \<and>
          \<not> list_ex (\<lambda>c. older l (updated_at c)) (readable (page_data data))")
        case False
        then have "\<not> advances src (customers_continue l) ?u"
          by (auto simp: adv customers_continue_def)
        from walk_single [OF t this] False Ok200 t show ?thesis
          by (subst active_loop.simps)
             (auto simp: pr ft classify_active_eq Let_def)
      next
        case good: True
        then have ne: "page_data data \<noteq> []" by simp
        have cl: "classify_active l (page_data data) active_count False = (?cnt, False, False)"
          using good by (simp add: classify_active_eq)
        have step: "active_loop src l next_url page active_count total_customers reqs =
            active_loop src l (page_next data) (page + 1) ?cnt ?tc (reqs @ [?u])"
          using t Ok200 ne by (subst active_loop.simps) (simp add: cl Let_def)
        from "1.IH" [OF n Ok200 refl refl ne cl [symmetric] refl]
        have ih: "active_loop src l (page_next data) (page + 1) ?cnt ?tc (reqs @ [?u]) =
            (?cnt + int (length (filter ?act (concat (map (page_records src)
                   (walk src (customers_continue l) (page_next data) (page + 1)))))),
             first_total src (page_next data) (page + 1) ?tc,
             (reqs @ [?u]) @ walk src (customers_continue l) (page_next data) (page + 1))"
          by simp
        have ft': "first_total src (page_next data) (page + 1) ?tc = ?tc"
          by (simp add: first_total_def)
        have nx: "next_of src ?u = page_next data" using Ok200 by (simp add: next_of_def)
        show ?thesis
        proof (cases "truthy (page_next data)")
          case True
          with good have "advances src (customers_continue l) ?u"
            by (simp add: adv customers_continue_def)
          from walk_step [OF t this] show ?thesis
            unfolding step ih ft ft' nx by (simp add: pr)
        next
          case False
          then have "\<not> advances src (customers_continue l) ?u"
            by (simp add: adv customers_continue_def)
          from walk_single [OF t this]
          have w1: "walk src (customers_continue l) next_url page = [?u]" .
          from False
          have w0: "walk src (customers_continue l) (page_next data) (page + 1) = []"
            by (simp add: walk_Nil)
          show ?thesis
            unfolding step ih ft ft' w0 w1 by (simp add: pr)
        qed
      qed
    qed
  qed
qed


text \<open>Every request of a chain but the last is answered with a page after which the loop goes on.\<close>

lemma chain_butlast:
  "request_chain src continues link us \<Longrightarrow> u \<in> set (butlast us) \<Longrightarrow> advances src continues u"
proof (induction us)
  case Nil
  then show ?case by simp
next
  case (Cons a us)
  then show ?case by (cases us) auto
qed


subsection \<open>The deal search\<close>


definition not_excluded :: "(string \<rightharpoonup> string) \<Rightarrow> deal \<Rightarrow> bool" where
  "not_excluded owner_map r = (owner_name owner_map r \<notin> set EXCLUDED_OWNERS)"

lemma keep_deals_eq:
  "keep_deals owner_map results all_results =
     (all_results @ filter (not_excluded owner_map) (readable results), Malformed \<in> set results)"
proof (induction results arbitrary: all_results)
  case Nil
  show ?case by simp
next
  case (Cons a results)
  then show ?case by (cases a) (simp_all add: not_excluded_def)
qed


text \<open>In a run of a windowed loop, a page with a record older than the window start is the last one requested.\<close>

lemma flagged_page_last:
  assumes "windowed_trace src continues next_url page_count us"
    and "\<And>data. continues data \<Longrightarrow> \<not> list_ex flag (readable (page_data data))"
    and "u \<in> set us" "list_ex flag (page_records src u)"
  shows "u = last us"
proof (rule ccontr)
  assume n: "u \<noteq> last us"
  from assms(3) have ne: "us \<noteq> []" by auto
  then have "us = butlast us @ [last us]" by simp
  then have "set us = set (butlast us) \<union> {last us}"
    by (metis Un_insert_right list.simps(15) set_append sup_bot.right_neutral set_empty2 list.set(1))
  with assms(3) n have b: "u \<in> set (butlast us)" by auto
  from assms(1) ne have "request_chain src continues the us"
    by (auto simp: windowed_trace_def split: if_splits)
  from chain_butlast [OF this b] obtain data where "src u = Ok200 data" "continues data"
    by (auto simp: advances_def split: response.splits)
  with assms(2) [of data] assms(4) show False by (simp add: page_records_def)
qed

text \<open>The three pages of the example: one record each, with recency and date 10, 5 and 1.\<close>

definition example_customers :: "string \<Rightarrow> customer response" where
  "example_customers url =
     (if url = ''page1'' then
        Ok200 \<lparr>page_data = [Entry \<lparr>c_id = ''r1'', updated_at = Some 10, created_at = Some 10,
                                   last_request_at = None\<rparr>],
               page_next = Some ''page2'', page_total = 3\<rparr>
      else if url = ''page2'' then
        Ok200 \<lparr>page_data = [Entry \<lparr>c_id = ''r2'', updated_at = Some 5, created_at = Some 5,
                                   last_request_at = None\<rparr>],
               page_next = Some ''page3'', page_total = 3\<rparr>
      else if url = ''page3'' then
        Ok200 \<lparr>page_data = [Entry \<lparr>c_id = ''r3'', updated_at = Some 1, created_at = Some 1,
                                   last_request_at = None\<rparr>],
               page_next = None, page_total = 3\<rparr>
      else NotOk)"

definition example_purchases :: "string \<Rightarrow> purchase response" where
  "example_purchases url =
     (if url = ''page1'' then
        Ok200 \<lparr>page_data = [Entry \<lparr>p_id = ''r1'', p_created_at = Some 10,
                                   amount_in_cents = Some 2500\<rparr>],
               page_next = Some ''page2'', page_total = 3\<rparr>
      else if url = ''page2'' then
        Ok200 \<lparr>page_data = [Entry \<lparr>p_id = ''r2'', p_created_at = Some 5,
                                   amount_in_cents = Some 900\<rparr>],
               page_next = Some ''page3'', page_total = 3\<rparr>
      else if url = ''page3'' then
        Ok200 \<lparr>page_data = [Entry \<lparr>p_id = ''r3'', p_created_at = Some 1,
                                   amount_in_cents = Some 100\<rparr>],
               page_next = None, page_total = 3\<rparr>
      else NotOk)"

lemma example_customers_run:
  "customers_loop example_customers 6 20 (Some ''page1'') 0 [] 0 [] =
     ([\<lparr>c_id = ''r1'', updated_at = Some 10, created_at = Some 10, last_request_at = None\<rparr>],
      3, [''page1'', ''page2''])"
  by code_simp

lemma example_purchases_run:
  "sales_loop example_purchases 6 20 (Some ''page1'') 0 0 [] [] =
     (25, [\<lparr>p_id = ''r1'', p_created_at = Some 10, amount_in_cents = Some 2500\<rparr>],
      [''page1'', ''page2''])"
  by code_simp

text \<open>
  C1 (as amended).  In \<open>get_kajabi_new_customers\<close>, \<open>get_kajabi_sales\<close> and
  \<open>get_kajabi_active_customers\<close>, the loop over a page handles the records of the page up
  to its first malformed element (all of them when there is none): it keeps exactly those
  whose date lies within the window (a purchase only when, in addition, its amount is a
  number; the active-customer count takes those whose last request is at or after the
  limit), and it sets the stop flag exactly when one of them has a recency older than the
  window start; the records after the one that sets the flag are handled all the same.  A
  malformed element ends the fetch at that element.
  A run of the loop returns what it held before, extended by the records so kept of all the
  pages it requested, in order; every page that is followed by another request was not
  empty, had no malformed element and no record older than the window start, and named that
  request; so a page that sets the flag is the last one requested.
  For the three pages of the example and the window start 6 (end 20), pages 1 and 2 are
  requested, page 3 is not, and the result is \<open>r1\<close>.
\<close>

theorem windowed_fetch_early_exit:
  "classify_customers s e batch all_customers False =
     (all_customers @ filter (\<lambda>c. in_window s e (created_at c)) (readable batch),
      list_ex (\<lambda>c. older s (updated_at c)) (readable batch),
      Malformed \<in> set batch) \<and>
   classify_purchases s e pbatch revenue filtered False =
     (revenue + sum_list (map (\<lambda>p. the (amount_in_cents p) / 100)
        (filter (\<lambda>p. in_window s e (p_created_at p) \<and> amount_in_cents p \<noteq> None)
           (readable pbatch))),
      filtered @ filter (\<lambda>p. in_window s e (p_created_at p) \<and> amount_in_cents p \<noteq> None)
                   (readable pbatch),
      list_ex (\<lambda>p. older s (p_created_at p)) (readable pbatch),
      Malformed \<in> set pbatch) \<and>
   classify_active s batch active_count False =
     (active_count + int (length (filter (\<lambda>c. at_or_after s (last_request_at c)) (readable batch))),
      list_ex (\<lambda>c. older s (updated_at c)) (readable batch),
      Malformed \<in> set batch) \<and>
   (\<exists>us. customers_loop csrc s e next_url page_count all_customers total_global reqs =
           (all_customers @ filter (\<lambda>c. in_window s e (created_at c))
                              (concat (map (page_records csrc) us)),
            first_total csrc next_url page_count total_global,
            reqs @ us) \<and>
         windowed_trace csrc (customers_continue s) next_url page_count us \<and>
         (\<forall>u\<in>set us. list_ex (\<lambda>c. older s (updated_at c)) (page_records csrc u) \<longrightarrow>
                      u = last us)) \<and>
   (\<exists>us. sales_loop psrc s e next_url page_count revenue filtered reqs =
           (revenue + sum_list (map (\<lambda>p. the (amount_in_cents p) / 100)
              (filter (\<lambda>p. in_window s e (p_created_at p) \<and> amount_in_cents p \<noteq> None)
                 (concat (map (page_records psrc) us)))),
            filtered @ filter (\<lambda>p. in_window s e (p_created_at p) \<and> amount_in_cents p \<noteq> None)
                         (concat (map (page_records psrc) us)),
            reqs @ us) \<and>
         windowed_trace psrc (purchases_continue s) next_url page_count us \<and>
         (\<forall>u\<in>set us. list_ex (\<lambda>p. older s (p_created_at p)) (page_records psrc u) \<longrightarrow>
                      u = last us)) \<and>
   (\<exists>us. active_loop csrc s next_url page_count active_count total_global reqs =
           (active_count + int (length (filter (\<lambda>c. at_or_after s (last_request_at c))
                                          (concat (map (page_records csrc) us)))),
            first_total csrc next_url page_count total_global,
            reqs @ us) \<and>
         windowed_trace csrc (customers_continue s) next_url page_count us \<and>
         (\<forall>u\<in>set us. list_ex (\<lambda>c. older s (updated_at c)) (page_records csrc u) \<longrightarrow>
                      u = last us)) \<and>
   customers_loop example_customers 6 20 (Some ''page1'') 0 [] 0 [] =
     ([\<lparr>c_id = ''r1'', updated_at = Some 10, created_at = Some 10, last_request_at = None\<rparr>],
      3, [''page1'', ''page2'']) \<and>
   sales_loop example_purchases 6 20 (Some ''page1'') 0 0 [] [] =
     (25, [\<lparr>p_id = ''r1'', p_created_at = Some 10, amount_in_cents = Some 2500\<rparr>],
      [''page1'', ''page2''])"
proof -
  let ?cw = "walk csrc (customers_continue s) next_url page_count"
  let ?pw = "walk psrc (purchases_continue s) next_url page_count"
  have ct: "windowed_trace csrc (customers_continue s) next_url page_count ?cw"
    by (rule walk_trace) (rule customers_continue_truthy)
  have pt: "windowed_trace psrc (purchases_continue s) next_url page_count ?pw"
    by (rule walk_trace) (rule purchases_continue_truthy)
  have cf: "\<forall>u\<in>set ?cw. list_ex (\<lambda>c. older s (updated_at c)) (page_records csrc u) \<longrightarrow>
      u = last ?cw"
    using flagged_page_last [OF ct, of "\<lambda>c. older s (updated_at c)"]
    by (auto simp: customers_continue_def)
  have pf: "\<forall>u\<in>set ?pw. list_ex (\<lambda>p. older s (p_created_at p)) (page_records psrc u) \<longrightarrow>
      u = last ?pw"
    using flagged_page_last [OF pt, of "\<lambda>p. older s (p_created_at p)"]
    by (auto simp: purchases_continue_def)
  have a: "\<exists>us. customers_loop csrc s e next_url page_count all_customers total_global reqs =
           (all_customers @ filter (\<lambda>c. in_window s e (created_at c))
                              (concat (map (page_records csrc) us)),
            first_total csrc next_url page_count total_global,
            reqs @ us) \<and>
         windowed_trace csrc (customers_continue s) next_url page_count us \<and>
         (\<forall>u\<in>set us. list_ex (\<lambda>c. older s (updated_at c)) (page_records csrc u) \<longrightarrow>
                      u = last us)"
    using customers_loop_walk ct cf by blast
  have b: "\<exists>us. sales_loop psrc s e next_url page_count revenue filtered reqs =
           (revenue + sum_list (map (\<lambda>p. the (amount_in_cents p) / 100)
              (filter (\<lambda>p. in_window s e (p_created_at p) \<and> amount_in_cents p \<noteq> None)
                 (concat (map (page_records psrc) us)))),
            filtered @ filter (\<lambda>p. in_window s e (p_created_at p) \<and> amount_in_cents p \<noteq> None)
                         (concat (map (page_records psrc) us)),
            reqs @ us) \<and>
         windowed_trace psrc (purchases_continue s) next_url page_count us \<and>
         (\<forall>u\<in>set us. list_ex (\<lambda>p. older s (p_created_at p)) (page_records psrc u) \<longrightarrow>
                      u = last us)"
    using sales_loop_walk pt pf by blast
  have c: "\<exists>us. active_loop csrc s next_url page_count active_count total_global reqs =
           (active_count + int (length (filter (\<lambda>c. at_or_after s (last_request_at c))
                                          (concat (map (page_records csrc) us)))),
            first_total csrc next_url page_count total_global,
            reqs @ us) \<and>
         windowed_trace csrc (customers_continue s) next_url page_count us \<and>
         (\<forall>u\<in>set us. list_ex (\<lambda>c. older s (updated_at c)) (page_records csrc u) \<longrightarrow>
                      u = last us)"
    using active_loop_walk ct cf by blast
  have d: "classify_customers s e batch all_customers False =
     (all_customers @ filter (\<lambda>c. in_window s e (created_at c)) (readable batch),
      list_ex (\<lambda>c. older s (updated_at c)) (readable batch),
      Malformed \<in> set batch)"
    by (simp add: classify_customers_eq)
  have f: "classify_purchases s e pbatch revenue filtered False =
     (revenue + sum_list (map (\<lambda>p. the (amount_in_cents p) / 100)
        (filter (\<lambda>p. in_window s e (p_created_at p) \<and> amount_in_cents p \<noteq> None)
           (readable pbatch))),
      filtered @ filter (\<lambda>p. in_window s e (p_created_at p) \<and> amount_in_cents p \<noteq> None)
                   (readable pbatch),
      list_ex (\<lambda>p. older s (p_created_at p)) (readable pbatch),
      Malformed \<in> set pbatch)"
    unfolding classify_purchases_eq by simp
  have g: "classify_active s batch active_count False =
     (active_count + int (length (filter (\<lambda>c. at_or_after s (last_request_at c)) (readable batch))),
      list_ex (\<lambda>c. older s (updated_at c)) (readable batch),
      Malformed \<in> set batch)"
    by (simp add: classify_active_eq)
  from d f g a b c example_customers_run example_purchases_run show ?thesis
    by (intro conjI)
qed

theorem windowed_fetch_early_exit_witness:
  "windowed_trace example_customers (customers_continue 6) (Some ''page1'') 0
     [''page1'', ''page2''] \<and>
   list_ex (\<lambda>c. older 6 (updated_at c)) (page_records example_customers ''page2'') \<and>
   [\<lparr>c_id = ''r1'', updated_at = Some 10, created_at = Some 10, last_request_at = None\<rparr>] =
     filter (\<lambda>c. in_window 6 20 (created_at c))
       (concat (map (page_records example_customers) [''page1'', ''page2'']))"
proof -
  from windowed_fetch_early_exit [where csrc = example_customers and s = 6 and e = 20
      and next_url = "Some ''page1''" and page_count = 0 and all_customers = "[]"
      and total_global = 0 and reqs = "[]"]
  obtain us where r: "customers_loop example_customers 6 20 (Some ''page1'') 0 [] 0 [] =
           ([] @ filter (\<lambda>c. in_window 6 20 (created_at c))
                              (concat (map (page_records example_customers) us)),
            first_total example_customers (Some ''page1'') 0 0,
            [] @ us)"
    and t: "windowed_trace example_customers (customers_continue 6) (Some ''page1'') 0 us"
    by blast
  from r have us: "us = [''page1'', ''page2'']" and
    k: "[\<lparr>c_id = ''r1'', updated_at = Some 10, created_at = Some 10, last_request_at = None\<rparr>] =
      filter (\<lambda>c. in_window 6 20 (created_at c))
       (concat (map (page_records example_customers) us))"
    unfolding example_customers_run by simp_all
  have "list_ex (\<lambda>c. older 6 (updated_at c)) (page_records example_customers ''page2'')"
    by (simp add: page_records_def example_customers_def older_def)
  with t k show ?thesis unfolding us by simp
qed

text \<open>
  C1 as the specification states it fails in two places.  A purchase whose date lies within
  the window is not kept when its amount is not a number.  A page is not classified to its
  end when one of its elements is malformed: of the page \<open>[malformed, r1]\<close> with \<open>r1\<close>
  dated within the window, nothing is kept.
\<close>

theorem windowed_fetch_not_all_classified:
  "classify_purchases 6 20
     [Entry \<lparr>p_id = ''r1'', p_created_at = Some 10, amount_in_cents = None\<rparr>] 0 [] False =
     (0, [], False, False) \<and>
   in_window 6 20 (p_created_at \<lparr>p_id = ''r1'', p_created_at = Some 10, amount_in_cents = None\<rparr>) \<and>
   classify_customers 6 20
     [Malformed,
      Entry \<lparr>c_id = ''r1'', updated_at = Some 10, created_at = Some 10, last_request_at = None\<rparr>]
     [] False = ([], False, True) \<and>
   in_window 6 20 (created_at
     \<lparr>c_id = ''r1'', updated_at = Some 10, created_at = Some 10, last_request_at = None\<rparr>)"
  by (simp add: in_window_def)

subsection \<open>The page bound\<close>






text \<open>
  The requests are those of the function itself: what \<open>get_kajabi_new_customers\<close>
  returns is what its loop collected.
\<close>

lemma get_kajabi_new_customers_of_run:
  assumes "get_kajabi_new_customers token src ts te = Inr (n, customers, total_global, trend)"
  shows "\<exists>reqs. get_kajabi_new_customers_run token src ts te = Inr (customers, total_global, reqs)
           \<and> n = int (length customers)"
proof (cases "truthy token")
  case False
  with assms show ?thesis
    by (simp add: get_kajabi_new_customers_def get_kajabi_new_customers_run_def)
next
  case True
  with assms obtain s e where "start_of_day_ist ts = Inr s" "end_of_day_ist te = Inr e"
    by (cases "start_of_day_ist ts"; cases "end_of_day_ist te")
       (simp_all add: get_kajabi_new_customers_def)
  with True assms show ?thesis
    by (cases "fill_date_range
          (count_created (fst (customers_loop src s e (Some customers_url) 0 [] 0 [])) Map.empty)
          (ist_date s) (chart_end_date (ist_date e)) []")
       (auto simp: get_kajabi_new_customers_def get_kajabi_new_customers_run_def
          Let_def split: prod.splits)
qed

text \<open>
  A source that answers every request with a page and a next-page cursor.  Against it the
  deal search of \<open>get_hubspot_deals\<close> and the product listing never return, however many
  page requests they are allowed.
\<close>

definition endless_deals :: "string option \<Rightarrow> deal response" where
  "endless_deals after = Ok200 \<lparr>page_data = [], page_next = Some ''next'', page_total = 0\<rparr>"

definition endless_products :: "string \<Rightarrow> product response" where
  "endless_products url = Ok200 \<lparr>page_data = [], page_next = Some ''next'', page_total = 0\<rparr>"

lemma hubspot_loop_endless:
  "hubspot_loop fuel owner_map endless_deals after all_results reqs = None"
  by (induction fuel arbitrary: after all_results reqs)
     (simp_all add: endless_deals_def truthy_def)

lemma products_loop_endless:
  "truthy next_url \<Longrightarrow> products_loop fuel endless_products next_url all_products reqs = None"
  by (induction fuel arbitrary: next_url all_products reqs)
     (simp_all add: endless_products_def truthy_def)

lemma start_of_day_ist_Inr:
  assumes "start_of_day_ist d = Inr s"
  shows "1 < d" "d < MAXORDINAL" "s = ist_instant d 0" "ist_date s = d"
proof -
  from assms show a: "1 < d" "d < MAXORDINAL" "s = ist_instant d 0"
    by (auto simp: start_of_day_ist_def ist_localize_def split: if_splits)
  show "ist_date s = d" by (simp add: a(3) ist_date_def ist_instant_def DAY_US_def)
qed

lemma end_of_day_ist_Inr:
  assumes "end_of_day_ist d = Inr e"
  shows "1 < d" "d < MAXORDINAL" "e = ist_instant d (DAY_US - 1)" "ist_date e = d"
proof -
  from assms show a: "1 < d" "d < MAXORDINAL" "e = ist_instant d (DAY_US - 1)"
    by (auto simp: end_of_day_ist_def ist_localize_def split: if_splits)
  have "(d * 86400000000 + 86399999999) div 86400000000 = (d::int)"
    by (simp add: div_pos_pos_trivial)
  then show "ist_date e = d" by (simp add: a(3) ist_date_def ist_instant_def DAY_US_def)
qed

lemma get_hubspot_deals_endless:
  assumes "start_of_day_ist s = Inr dt_start_ist" "end_of_day_ist e = Inr dt_end_ist"
  shows "get_hubspot_deals fuel (Some ''token'') owner_map endless_deals s e = None"
  using assms by (simp add: get_hubspot_deals_def hubspot_loop_endless truthy_def)

lemma get_kajabi_products_endless:
  "get_kajabi_products fuel (Some ''token'') endless_products = None"
  by (simp add: get_kajabi_products_def products_loop_endless truthy_def products_url_def)


subsection \<open>A page request that fails\<close>














text \<open>
  Whatever the source answers, the functions return a value when the window can be
  localized: no failure of a page request leaves them as an exception.
\<close>

lemma get_kajabi_sales_returns:
  assumes "start_of_day_ist target_month_start = Inr dt_start_ist"
    and "end_of_day_ist target_month_end = Inr dt_end_ist"
  shows "\<exists>revenue filtered.
           get_kajabi_sales token src target_month_start target_month_end =
             Inr (revenue, filtered)"
  using assms
  by (cases "truthy token")
     (simp_all add: get_kajabi_sales_def get_kajabi_sales_run_def sales_loop_walk)

lemma get_kajabi_new_customers_returns:
  assumes "start_of_day_ist target_month_start = Inr dt_start_ist"
    and "end_of_day_ist target_month_end = Inr dt_end_ist"
  shows "\<exists>result. get_kajabi_new_customers token src target_month_start target_month_end =
           Inr result"
proof -
  note s = start_of_day_ist_Inr [OF assms(1)] and e = end_of_day_ist_Inr [OF assms(2)]
  from s(1) have s1: "1 \<le> target_month_start" by simp
  note fill = fill_date_range_upto [OF s1 e(2)]
  from assms show ?thesis
    by (cases "truthy token")
       (simp_all add: get_kajabi_new_customers_def customers_loop_walk Let_def s(4) e(4)
          chart_end_date_def fill)
qed

lemma get_kajabi_active_customers_returns:
  assumes "start_of_day_ist start_date = Inr dt_limit_ist"
  shows "\<exists>result. get_kajabi_active_customers token src start_date = Inr result"
  using assms
  by (cases "truthy token")
     (simp_all add: get_kajabi_active_customers_def get_kajabi_active_customers_run_def
        active_loop_walk)

lemma get_hubspot_deals_returns_value:
  assumes "start_of_day_ist target_month_start = Inr dt_start_ist"
    and "end_of_day_ist target_month_end = Inr dt_end_ist"
    and "get_hubspot_deals fuel token owner_map src target_month_start target_month_end =
           Some result"
  shows "\<exists>v. result = Inr v"
proof (cases "truthy token")
  case False
  with assms(3) show ?thesis by (auto simp: get_hubspot_deals_def)
next
  case True
  note s = start_of_day_ist_Inr [OF assms(1)] and e = end_of_day_ist_Inr [OF assms(2)]
  from s(1) have s1: "1 \<le> target_month_start" by simp
  note fill = fill_date_range_upto [OF s1 e(2)]
  from True assms show ?thesis
    by (auto simp: get_hubspot_deals_def Let_def s(4) e(4) chart_end_date_def fill
        split: option.splits)
qed

text \<open>
  On the first and on the last day of the calendar the window cannot be localized, and the
  \<open>OverflowError\<close> of \<open>localize\<close> leaves the functions, before any page is requested.
\<close>

lemma localize_raises:
  "start_of_day_ist 1 = Inl OverflowError" "end_of_day_ist MAXORDINAL = Inl OverflowError"
  by (simp_all add: start_of_day_ist_def end_of_day_ist_def ist_localize_def)

lemma get_hubspot_deals_first_day:
  "truthy token \<Longrightarrow>
   get_hubspot_deals fuel token owner_map src 1 target_month_end = Some (Inl OverflowError)"
  by (simp add: get_hubspot_deals_def localize_raises)

lemma get_kajabi_sales_first_day:
  "truthy token \<Longrightarrow> get_kajabi_sales token src 1 target_month_end = Inl OverflowError"
  by (simp add: get_kajabi_sales_def get_kajabi_sales_run_def localize_raises)

text \<open>
  Sources for the examples: two pages arrive, the request for the third fails (it raises for
  the purchases, it is answered with another status for the deals).
\<close>

definition failing_purchases :: "string \<Rightarrow> purchase response" where
  "failing_purchases url =
     (if url = sales_url then
        Ok200 \<lparr>page_data =
                 [Entry \<lparr>p_id = ''p1'', p_created_at = Some (ist_instant (ymd2ord 2024 2 3) 7),
                         amount_in_cents = Some 2500\<rparr>,
                  Entry \<lparr>p_id = ''p2'', p_created_at = Some (ist_instant (ymd2ord 2024 2 2) 9),
                         amount_in_cents = Some 1000\<rparr>],
               page_next = Some ''page2'', page_total = 0\<rparr>
      else if url = ''page2'' then
        Ok200 \<lparr>page_data =
                 [Entry \<lparr>p_id = ''p3'', p_created_at = Some (ist_instant (ymd2ord 2024 2 1) 11),
                         amount_in_cents = Some 400\<rparr>],
               page_next = Some ''page3'', page_total = 0\<rparr>
      else Raises)"

definition failing_deals :: "string option \<Rightarrow> deal response" where
  "failing_deals after =
     (if after = None then
        Ok200 \<lparr>page_data =
                 [Entry \<lparr>deal_id = ''d1'', hubspot_owner_id = Some ''7'', amount = Some 1500,
                         closedate = Some (ist_instant (ymd2ord 2024 2 2) 7)\<rparr>,
                  Entry \<lparr>deal_id = ''d2'', hubspot_owner_id = Some ''8'', amount = Some 500,
                         closedate = Some (ist_instant (ymd2ord 2024 2 2) 9)\<rparr>],
               page_next = Some ''100'', page_total = 0\<rparr>
      else if after = Some ''100'' then
        Ok200 \<lparr>page_data =
                 [Entry \<lparr>deal_id = ''d3'', hubspot_owner_id = None, amount = Some 250,
                         closedate = Some (ist_instant (ymd2ord 2024 2 3) 5)\<rparr>],
               page_next = Some ''200'', page_total = 0\<rparr>
      else NotOk)"

lemma get_kajabi_sales_failing:
  "get_kajabi_sales (Some ''token'') failing_purchases (ymd2ord 2024 2 1) (ymd2ord 2024 2 3) =
     Inr (39,
      [\<lparr>p_id = ''p1'', p_created_at = Some (ist_instant (ymd2ord 2024 2 3) 7),
        amount_in_cents = Some 2500\<rparr>,
       \<lparr>p_id = ''p2'', p_created_at = Some (ist_instant (ymd2ord 2024 2 2) 9),
        amount_in_cents = Some 1000\<rparr>,
       \<lparr>p_id = ''p3'', p_created_at = Some (ist_instant (ymd2ord 2024 2 1) 11),
        amount_in_cents = Some 400\<rparr>])"
  by code_simp

lemma get_hubspot_deals_failing:
  "get_hubspot_deals 3 (Some ''token'') Map.empty failing_deals (ymd2ord 2024 2 1) (ymd2ord 2024 2 3) =
     Some (Inr (3, 2250,
       [[(''Date'', Str ''2024-02-01''), (''Count'', Num 0)],
        [(''Date'', Str ''2024-02-02''), (''Count'', Num 2)],
        [(''Date'', Str ''2024-02-03''), (''Count'', Num 1)]]))"
  by code_simp





subsection \<open>Excluded owners\<close>

text \<open>The same source with the deals of excluded owners removed from every page.\<close>

definition drop_excluded ::
  "(string \<rightharpoonup> string) \<Rightarrow> (string option \<Rightarrow> deal response) \<Rightarrow> string option \<Rightarrow> deal response" where
  "drop_excluded owner_map src after =
     (case src after of
        Raises \<Rightarrow> Raises
      | NotOk \<Rightarrow> NotOk
      | Ok200 data \<Rightarrow>
          Ok200 (data\<lparr>page_data :=
                   filter (\<lambda>x. case x of Malformed \<Rightarrow> True
                                | Entry r \<Rightarrow> owner_name owner_map r \<notin> set EXCLUDED_OWNERS)
                     (page_data data)\<rparr>))"

lemma keep_deals_drop_excluded:
  "keep_deals owner_map
     (filter (\<lambda>x. case x of Malformed \<Rightarrow> True
                  | Entry r \<Rightarrow> owner_name owner_map r \<notin> set EXCLUDED_OWNERS) results)
     all_results =
   keep_deals owner_map results all_results"
proof (induction results arbitrary: all_results)
  case Nil
  show ?case by simp
next
  case (Cons a results)
  then show ?case by (cases a) simp_all
qed

lemma hubspot_loop_drop_excluded:
  "hubspot_loop fuel owner_map (drop_excluded owner_map src) after all_results reqs =
   hubspot_loop fuel owner_map src after all_results reqs"
proof (induction fuel arbitrary: after all_results reqs)
  case 0
  show ?case by simp
next
  case (Suc fuel)
  show ?case
  proof (cases "src after")
    case Raises
    then have "drop_excluded owner_map src after = Raises" by (simp add: drop_excluded_def)
    with Raises show ?thesis by simp
  next
    case NotOk
    then have "drop_excluded owner_map src after = NotOk" by (simp add: drop_excluded_def)
    with NotOk show ?thesis by simp
  next
    case (Ok200 data)
    then have d: "drop_excluded owner_map src after =
        Ok200 (data\<lparr>page_data :=
                 filter (\<lambda>x. case x of Malformed \<Rightarrow> True
                              | Entry r \<Rightarrow> owner_name owner_map r \<notin> set EXCLUDED_OWNERS)
                   (page_data data)\<rparr>)"
      by (simp add: drop_excluded_def)
    obtain kept raised where k: "keep_deals owner_map (page_data data) all_results = (kept, raised)"
      by (cases "keep_deals owner_map (page_data data) all_results")
    from Ok200 show ?thesis
      by (simp add: d keep_deals_drop_excluded k Suc.IH Let_def)
  qed
qed

lemma hubspot_loop_no_excluded:
  assumes "hubspot_loop fuel owner_map src after all_results reqs = Some (res, reqs')"
    and "\<forall>r\<in>set all_results. owner_name owner_map r \<notin> set EXCLUDED_OWNERS"
  shows "\<forall>r\<in>set res. owner_name owner_map r \<notin> set EXCLUDED_OWNERS"
  using assms
proof (induction fuel arbitrary: after all_results reqs)
  case 0
  then show ?case by simp
next
  case (Suc fuel)
  show ?case
  proof (cases "src after")
    case Raises
    with Suc.prems show ?thesis by simp
  next
    case NotOk
    with Suc.prems show ?thesis by simp
  next
    case (Ok200 data)
    let ?all = "all_results @ filter (not_excluded owner_map) (readable (page_data data))"
    from Suc.prems(2) have k: "\<forall>r\<in>set ?all. owner_name owner_map r \<notin> set EXCLUDED_OWNERS"
      by (auto simp: not_excluded_def)
    show ?thesis
    proof (cases "Malformed \<notin> set (page_data data) \<and> truthy (page_next data)")
      case True
      with Suc.prems(1) Ok200
      have "hubspot_loop fuel owner_map src (page_next data) ?all (reqs @ [after]) = Some (res, reqs')"
        by (simp add: keep_deals_eq Let_def)
      from Suc.IH [OF this k] show ?thesis .
    next
      case False
      with Suc.prems(1) Ok200 have "res = ?all"
        by (auto simp: keep_deals_eq Let_def split: if_splits)
      with k show ?thesis by simp
    qed
  qed
qed

text \<open>
  A page of three deals; owner 7 is \<open>Sreeja Anoop\<close>, one of the excluded owners.
\<close>

definition example_owner_map :: "string \<rightharpoonup> string" where
  "example_owner_map = [''7'' \<mapsto> ''Sreeja Anoop'', ''8'' \<mapsto> ''Asha Nair'']"

definition example_deals :: "string option \<Rightarrow> deal response" where
  "example_deals after =
     (if after = None then
        Ok200 \<lparr>page_data =
                 [Entry \<lparr>deal_id = ''d1'', hubspot_owner_id = Some ''7'', amount = Some 1500,
                         closedate = Some (ist_instant (ymd2ord 2024 2 2) 7)\<rparr>,
                  Entry \<lparr>deal_id = ''d2'', hubspot_owner_id = Some ''8'', amount = Some 500,
                         closedate = Some (ist_instant (ymd2ord 2024 2 3) 9)\<rparr>,
                  Entry \<lparr>deal_id = ''d3'', hubspot_owner_id = None, amount = Some 250,
                         closedate = Some (ist_instant (ymd2ord 2024 2 3) 11)\<rparr>],
               page_next = None, page_total = 0\<rparr>
      else NotOk)"

lemma get_hubspot_deals_example:
  "get_hubspot_deals 1 (Some ''token'') example_owner_map example_deals
     (ymd2ord 2024 2 1) (ymd2ord 2024 2 3) =
     Some (Inr (2, 750,
       [[(''Date'', Str ''2024-02-01''), (''Count'', Num 0)],
        [(''Date'', Str ''2024-02-02''), (''Count'', Num 0)],
        [(''Date'', Str ''2024-02-03''), (''Count'', Num 2)]]))"
  by code_simp

text \<open>
  C9.  \<open>get_hubspot_deals\<close> of the Flask application returns the same count, revenue total
  and daily trend as it would if the deals whose owner id maps, through the owner map, to a
  name of \<open>EXCLUDED_OWNERS\<close> had never been served, for every window and every source; no
  such deal is among the results that are counted.  In the example the deal of the excluded
  owner (amount 1500, closed on 2024-02-02) is missing from the count 2, the total 750 and the
  trend.
\<close>

theorem get_hubspot_deals_excludes_owners:
  "get_hubspot_deals fuel token owner_map src target_month_start target_month_end =
     get_hubspot_deals fuel token owner_map (drop_excluded owner_map src)
       target_month_start target_month_end \<and>
   (hubspot_loop fuel owner_map src None [] [] = Some (all_results, reqs) \<longrightarrow>
      (\<forall>r\<in>set all_results. owner_name owner_map r \<notin> set EXCLUDED_OWNERS)) \<and>
   get_hubspot_deals 1 (Some ''token'') example_owner_map example_deals
     (ymd2ord 2024 2 1) (ymd2ord 2024 2 3) =
     Some (Inr (2, 750,
       [[(''Date'', Str ''2024-02-01''), (''Count'', Num 0)],
        [(''Date'', Str ''2024-02-02''), (''Count'', Num 0)],
        [(''Date'', Str ''2024-02-03''), (''Count'', Num 2)]]))"
proof -
  have a: "get_hubspot_deals fuel token owner_map src target_month_start target_month_end =
     get_hubspot_deals fuel token owner_map (drop_excluded owner_map src)
       target_month_start target_month_end"
    by (simp only: get_hubspot_deals_def hubspot_loop_drop_excluded)
  have b: "\<forall>r\<in>set all_results. owner_name owner_map r \<notin> set EXCLUDED_OWNERS"
    if "hubspot_loop fuel owner_map src None [] [] = Some (all_results, reqs)"
    using hubspot_loop_no_excluded [OF that] by simp
  from a b get_hubspot_deals_example show ?thesis by blast
qed

theorem get_hubspot_deals_excludes_owners_witness:
  "owner_name example_owner_map
     \<lparr>deal_id = ''d2'', hubspot_owner_id = Some ''8'', amount = Some 500,
       closedate = Some (ist_instant (ymd2ord 2024 2 3) 9)\<rparr> \<notin> set EXCLUDED_OWNERS \<and>
   owner_name example_owner_map
     \<lparr>deal_id = ''d3'', hubspot_owner_id = None, amount = Some 250,
       closedate = Some (ist_instant (ymd2ord 2024 2 3) 11)\<rparr> \<notin> set EXCLUDED_OWNERS \<and>
   owner_name example_owner_map
     \<lparr>deal_id = ''d1'', hubspot_owner_id = Some ''7'', amount = Some 1500,
       closedate = Some (ist_instant (ymd2ord 2024 2 2) 7)\<rparr> \<in> set EXCLUDED_OWNERS"
proof -
  let ?d1 = "\<lparr>deal_id = ''d1'', hubspot_owner_id = Some ''7'', amount = Some 1500,
       closedate = Some (ist_instant (ymd2ord 2024 2 2) 7)\<rparr>"
  let ?d2 = "\<lparr>deal_id = ''d2'', hubspot_owner_id = Some ''8'', amount = Some 500,
       closedate = Some (ist_instant (ymd2ord 2024 2 3) 9)\<rparr>"
  let ?d3 = "\<lparr>deal_id = ''d3'', hubspot_owner_id = None, amount = Some 250,
       closedate = Some (ist_instant (ymd2ord 2024 2 3) 11)\<rparr>"
  have run: "hubspot_loop 1 example_owner_map example_deals None [] [] = Some ([?d2, ?d3], [None])"
    by (simp add: example_deals_def example_owner_map_def owner_name_def EXCLUDED_OWNERS_def
        truthy_def)
  from get_hubspot_deals_excludes_owners
    [where fuel = 1 and owner_map = example_owner_map and src = example_deals
      and all_results = "[?d2, ?d3]" and reqs = "[None]"] run
  have "\<forall>r\<in>set [?d2, ?d3]. owner_name example_owner_map r \<notin> set EXCLUDED_OWNERS"
    by blast
  moreover have "owner_name example_owner_map ?d1 \<in> set EXCLUDED_OWNERS"
    by (simp add: example_owner_map_def owner_name_def EXCLUDED_OWNERS_def)
  ultimately show ?thesis by simp
qed

end
